theory Spec2Isabelle
  imports Main "HOL-Library.Sublist"
begin

section \<open>Publication of public NetCDF resources: the model\<close>

text \<open>
  The program \<^verbatim>\<open>publish_netcdf.py\<close> keeps a THREDDS catalog directory in step with the public
  HydroShare resources of an iRODS proxy collection. It talks to three things outside itself:
  the iRODS session (read only), the \<^verbatim>\<open>iget\<close> program, and the local file system below the
  catalog path. The model makes each of them explicit:
  \<^item> the remote side is the list of collections directly below the proxy path (\<open>store\<close>);
  \<^item> \<^verbatim>\<open>iget\<close> is a parameter: any function from the resource id and the catalog tree to an
    exit code, the two captured streams and the catalog tree it leaves behind;
  \<^item> the catalog is a tree of files and directories; every path is relative to the catalog
    path, so \<^verbatim>\<open>os.path.join(catalog_path, resource_id)\<close> is the path \<open>[resource_id]\<close>;
  \<^item> an exception is a value of type \<open>error\<close>; a procedure returns the error it raised
    (if any), the catalog as it is at that moment, and the messages it logged;
  \<^item> a \<^verbatim>\<open>datetime\<close> is an integer (a count of microseconds); names are taken to be
    written in ASCII, so that each element of a \<open>string\<close> is one character and one byte
    of a name, and the length of the string is the length the file system limits.

  Left out: a failing connection to iRODS, symbolic links, the checking of permissions by
  the file system, the limit on the length of a whole path (\<^verbatim>\<open>PATH_MAX\<close>, which depends on
  the catalog path), the modification time the kernel gives a directory when an entry in
  it changes, and the conversion between \<^verbatim>\<open>datetime\<close> and the float \<^verbatim>\<open>os.utime\<close> takes.
\<close>

subsection \<open>Constants\<close>

definition RESOURCE_ID_GLOB :: string where
  "RESOURCE_ID_GLOB = ''????????????????????????????????''"

definition EXCLUDED :: "string list" where
  "EXCLUDED = [''bags'', ''temp'', ''zips'']"

definition IS_PUBLIC_KEY :: string where
  "IS_PUBLIC_KEY = ''isPublic''"

definition IS_PUBLIC_VALUE :: string where
  "IS_PUBLIC_VALUE = ''true''"

definition NETCDF_EXTENSION :: string where
  "NETCDF_EXTENSION = ''.nc''"

text \<open>\<^verbatim>\<open>S_IRWXU | S_IRGRP | S_IXGRP | S_IROTH | S_IXOTH\<close>: the bits are disjoint, so the
  bitwise or is their sum, octal 755.\<close>

definition FILE_MODE :: nat where
  "FILE_MODE = 448 + 32 + 8 + 4 + 1"

subsection \<open>Exceptions and log messages\<close>

text \<open>
  \<open>NetCDFPublicationError\<close> carries what the source passes to the exception: the resource id
  (for the message text), the exit code, stdout and stderr. The other constructors are the
  built-in exceptions the modelled library calls raise: \<open>ValueError\<close> from \<^verbatim>\<open>max\<close> of an empty
  list and from \<^verbatim>\<open>list.index\<close>, \<open>IndexError\<close> from a list subscript,
  \<open>CollectionDoesNotExist\<close> from \<^verbatim>\<open>session.collections.get\<close>, and the \<^verbatim>\<open>OSError\<close>s
  of \<^verbatim>\<open>os.chmod\<close>, \<^verbatim>\<open>os.rename\<close>, \<^verbatim>\<open>os.utime\<close> and \<^verbatim>\<open>shutil.rmtree\<close>: three subclasses,
  and the plain \<^verbatim>\<open>OSError\<close> with \<^verbatim>\<open>ENOTEMPTY\<close> (\<open>DirectoryNotEmpty\<close>) or with
  \<^verbatim>\<open>ENAMETOOLONG\<close> (\<open>FileNameTooLong\<close>).
\<close>

datatype error =
    NetCDFPublicationError string int string string
  | ValueError
  | CollectionDoesNotExist
  | FileNotFoundError
  | NotADirectoryError
  | IsADirectoryError
  | DirectoryNotEmpty
  | FileNameTooLong
  | IndexError

datatype level = INFO | WARNING | ERROR

datatype message =
    Publishing string
  | PublishFailed string int string string
  | Published string int
  | ReplacedNames nat "string list"
  | IncludedSubcollections nat
  | PublicSubcollections nat
  | NetCDFObjects string nat
  | PublicNetCDF nat
  | DestinationResources nat
  | Removed string
  | Syncing
  | NotInDestination string
  | SourceNewer string int int
  | SyncIncomplete
  | NoLongerInSource string
  | Synced

type_synonym log = "(level \<times> message) list"

subsection \<open>The remote store\<close>

text \<open>
  A data object has a name and a modification time; a collection has a name, its metadata
  (a mapping from key to value, as \<^verbatim>\<open>collection.metadata\<close> is used), its data objects and its
  subcollections. \<open>walk\<close> is \<^verbatim>\<open>collection.walk()\<close>: top down, the collection itself first.
\<close>

record data_object =
  obj_name :: string
  modify_time :: int

datatype collection =
  Collection (coll_name: string) (metadata: "string \<Rightarrow> string option")
    (data_objects: "data_object list") (subcollections: "collection list")

fun walk :: "collection \<Rightarrow> (collection \<times> collection list \<times> data_object list) list" where
  "walk (Collection n m objs subs) =
     (Collection n m objs subs, subs, objs) # concat (map walk subs)"

text \<open>\<^verbatim>\<open>session.collections.get(os.path.join(proxy_path, resource_id))\<close>.\<close>

definition collections_get :: "collection list \<Rightarrow> string \<Rightarrow> error + collection" where
  "collections_get store resource_id =
     (case find (\<lambda>c. coll_name c = resource_id) store of
        None \<Rightarrow> Inl CollectionDoesNotExist
      | Some c \<Rightarrow> Inr c)"

text \<open>Python's \<^verbatim>\<open>max\<close> of a list: \<^verbatim>\<open>ValueError\<close> on the empty list.\<close>

definition py_max :: "int list \<Rightarrow> error + int" where
  "py_max xs = (case xs of [] \<Rightarrow> Inl ValueError | x # ys \<Rightarrow> Inr (fold max ys x))"

definition get_latest_resource_timestamp :: "collection list \<Rightarrow> string \<Rightarrow> error + int" where
  "get_latest_resource_timestamp store resource_id =
     (case collections_get store resource_id of
        Inl e \<Rightarrow> Inl e
      | Inr collection \<Rightarrow>
          (let tree = walk collection;
               objs = concat (map (\<lambda>leaf. snd (snd leaf)) tree);
               timestamps = map modify_time objs
           in py_max timestamps))"

subsection \<open>Scanning the source\<close>

text \<open>\<^verbatim>\<open>str.lower\<close> on the letters A to Z; \<^verbatim>\<open>str.endswith\<close>.\<close>

definition lower_char :: "char \<Rightarrow> char" where
  "lower_char c =
     (case map_of (zip ''ABCDEFGHIJKLMNOPQRSTUVWXYZ'' ''abcdefghijklmnopqrstuvwxyz'') c of
        None \<Rightarrow> c
      | Some d \<Rightarrow> d)"

definition lower :: "string \<Rightarrow> string" where
  "lower s = map lower_char s"

definition endswith :: "string \<Rightarrow> string \<Rightarrow> bool" where
  "endswith s suf \<longleftrightarrow> length suf \<le> length s \<and> drop (length s - length suf) s = suf"

definition netcdf_objects :: "collection \<Rightarrow> data_object list" where
  "netcdf_objects subcollection =
     (let public_objects = map (\<lambda>(col, subcol, objs). objs) (walk subcollection);
          objs = concat public_objects
      in filter (\<lambda>obj. endswith (lower (obj_name obj)) NETCDF_EXTENSION) objs)"

text \<open>The final list comprehension of \<^verbatim>\<open>scan_source\<close>: the first failing timestamp lookup
  raises out of it.\<close>

fun source_timestamps :: "collection list \<Rightarrow> string list \<Rightarrow> error + (string \<times> int) list" where
  "source_timestamps store [] = Inr []"
| "source_timestamps store (resource_id # ids) =
     (case get_latest_resource_timestamp store resource_id of
        Inl e \<Rightarrow> Inl e
      | Inr timestamp \<Rightarrow>
          (case source_timestamps store ids of
             Inl e \<Rightarrow> Inl e
           | Inr rest \<Rightarrow> Inr ((resource_id, timestamp) # rest)))"

definition scan_source :: "collection list \<Rightarrow> (error + (string \<times> int) list) \<times> log" where
  "scan_source store =
     (let included = filter (\<lambda>c. coll_name c \<notin> set EXCLUDED) store;
          public = filter (\<lambda>c. metadata c ''isPublic'' \<noteq> None
                              \<and> metadata c IS_PUBLIC_KEY = Some IS_PUBLIC_VALUE) included;
          with_netcdf = filter (\<lambda>c. netcdf_objects c \<noteq> []) public;
          public_netcdf = map coll_name with_netcdf
      in (source_timestamps store public_netcdf,
          [(INFO, IncludedSubcollections (length included)),
           (INFO, PublicSubcollections (length public))]
          @ map (\<lambda>c. (INFO, NetCDFObjects (coll_name c) (length (netcdf_objects c)))) with_netcdf
          @ [(INFO, PublicNetCDF (length public_netcdf))]))"

subsection \<open>The catalog: a tree of files and directories\<close>

text \<open>
  A node carries the attributes the program reads or writes (permission bits, access and
  modification time); a directory lists its entries in the order \<^verbatim>\<open>os.scandir\<close> reports
  them. File contents play no part in the program and are left out. \<open>lookup\<close> resolves a
  path from a node.
\<close>

record stat =
  st_mode :: nat
  st_atime :: int
  st_mtime :: int

datatype node = File stat | Dir stat "(string \<times> node) list"

type_synonym path = "string list"

fun is_dir :: "node \<Rightarrow> bool" where
  "is_dir (Dir s es) = True"
| "is_dir (File s) = False"

fun node_stat :: "node \<Rightarrow> stat" where
  "node_stat (Dir s es) = s"
| "node_stat (File s) = s"

fun entries :: "node \<Rightarrow> (string \<times> node) list" where
  "entries (Dir s es) = es"
| "entries (File s) = []"

fun lookup :: "node \<Rightarrow> path \<Rightarrow> node option" where
  "lookup t [] = Some t"
| "lookup (File s) (x # xs) = None"
| "lookup (Dir s es) (x # xs) = (case map_of es x of None \<Rightarrow> None | Some c \<Rightarrow> lookup c xs)"

text \<open>
  The file system limits a name to \<^verbatim>\<open>NAME_MAX\<close> bytes, 255 on Linux: no entry has a longer
  name, and a call that names one fails with \<^verbatim>\<open>ENAMETOOLONG\<close>. \<open>lookup_error x\<close> is the error
  of a call on a name \<open>x\<close> that is not in the directory.
\<close>

definition NAME_MAX :: nat where
  "NAME_MAX = 255"

definition lookup_error :: "string \<Rightarrow> error" where
  "lookup_error x = (if NAME_MAX < length x then FileNameTooLong else FileNotFoundError)"

text \<open>\<open>upd x c es\<close> puts the node \<open>c\<close> in place of the entry called \<open>x\<close>.\<close>

fun upd :: "string \<Rightarrow> node \<Rightarrow> (string \<times> node) list \<Rightarrow> (string \<times> node) list" where
  "upd x c [] = []"
| "upd x c (e # es) = (if fst e = x then (x, c) # es else e # upd x c es)"

text \<open>
  A system call on a path: walk down to the node the path names and apply the operation
  there. A missing component is \<^verbatim>\<open>FileNotFoundError\<close> (\<^verbatim>\<open>ENAMETOOLONG\<close> when it is too long
  to exist), a file in the middle of the path is \<^verbatim>\<open>NotADirectoryError\<close>. The operation
  returns the error it raised, if any, and the node as it is afterwards.
\<close>

fun at_path :: "path \<Rightarrow> (node \<Rightarrow> error option \<times> node) \<Rightarrow> node \<Rightarrow> error option \<times> node" where
  "at_path [] f t = f t"
| "at_path (x # xs) f (File s) = (Some NotADirectoryError, File s)"
| "at_path (x # xs) f (Dir s es) =
     (case map_of es x of
        None \<Rightarrow> (Some (lookup_error x), Dir s es)
      | Some c \<Rightarrow> (case at_path xs f c of (r, c') \<Rightarrow> (r, Dir s (upd x c' es))))"

fun set_mode :: "nat \<Rightarrow> node \<Rightarrow> node" where
  "set_mode mode (File s) = File (s\<lparr>st_mode := mode\<rparr>)"
| "set_mode mode (Dir s es) = Dir (s\<lparr>st_mode := mode\<rparr>) es"

fun set_times :: "int \<times> int \<Rightarrow> node \<Rightarrow> node" where
  "set_times (a, m) (File s) = File (s\<lparr>st_atime := a, st_mtime := m\<rparr>)"
| "set_times (a, m) (Dir s es) = Dir (s\<lparr>st_atime := a, st_mtime := m\<rparr>) es"

definition os_chmod :: "path \<Rightarrow> nat \<Rightarrow> node \<Rightarrow> error option \<times> node" where
  "os_chmod p mode t = at_path p (\<lambda>n. (None, set_mode mode n)) t"

definition os_utime :: "path \<Rightarrow> int \<times> int \<Rightarrow> node \<Rightarrow> error option \<times> node" where
  "os_utime p tm t = at_path p (\<lambda>n. (None, set_times tm n)) t"

text \<open>
  \<^verbatim>\<open>os.rename(os.path.join(root, old), os.path.join(root, new))\<close>, as documented for Unix:
  an existing file is replaced by a file, an existing empty directory by a directory; a
  file onto a directory is \<^verbatim>\<open>IsADirectoryError\<close>, a directory onto a file is
  \<^verbatim>\<open>NotADirectoryError\<close>, a directory onto a directory that is not empty is an \<^verbatim>\<open>OSError\<close>
  (\<open>DirectoryNotEmpty\<close>). The kernel looks up the old name and then the new one, so a new
  name of more than \<^verbatim>\<open>NAME_MAX\<close> bytes is refused (\<open>FileNameTooLong\<close>) before the kinds
  of the two entries are compared. On an error nothing changes.
\<close>

definition rename_key :: "string \<Rightarrow> string \<Rightarrow> (string \<times> node) list \<Rightarrow> (string \<times> node) list" where
  "rename_key old new es = map (\<lambda>e. if fst e = old then (new, snd e) else e) es"

fun rename_entry :: "string \<Rightarrow> string \<Rightarrow> node \<Rightarrow> error option \<times> node" where
  "rename_entry old new (File s) = (Some NotADirectoryError, File s)"
| "rename_entry old new (Dir s es) =
     (case map_of es old of
        None \<Rightarrow> (Some (lookup_error old), Dir s es)
      | Some src \<Rightarrow>
          if NAME_MAX < length new then (Some FileNameTooLong, Dir s es)
          else if old = new then (None, Dir s es)
          else (case map_of es new of
             None \<Rightarrow> (None, Dir s (rename_key old new es))
           | Some dst \<Rightarrow>
               if \<not> is_dir src \<and> is_dir dst then (Some IsADirectoryError, Dir s es)
               else if is_dir src \<and> \<not> is_dir dst then (Some NotADirectoryError, Dir s es)
               else if is_dir src \<and> entries dst \<noteq> [] then
                 (Some DirectoryNotEmpty, Dir s es)
               else (None, Dir s (rename_key old new (filter (\<lambda>e. fst e \<noteq> new) es)))))"

definition os_rename :: "path \<Rightarrow> string \<Rightarrow> string \<Rightarrow> node \<Rightarrow> error option \<times> node" where
  "os_rename root old new t = at_path root (rename_entry old new) t"

text \<open>
  \<^verbatim>\<open>shutil.rmtree(os.path.join(root, x))\<close>: the directory and all below it go; on a plain
  file it raises \<^verbatim>\<open>NotADirectoryError\<close>, on a missing entry \<^verbatim>\<open>FileNotFoundError\<close>
  (\<^verbatim>\<open>ENAMETOOLONG\<close> for a name too long to exist).
\<close>

fun rmtree_entry :: "string \<Rightarrow> node \<Rightarrow> error option \<times> node" where
  "rmtree_entry x (File s) = (Some NotADirectoryError, File s)"
| "rmtree_entry x (Dir s es) =
     (case map_of es x of
        None \<Rightarrow> (Some (lookup_error x), Dir s es)
      | Some c \<Rightarrow>
          if is_dir c then (None, Dir s (filter (\<lambda>e. fst e \<noteq> x) es))
          else (Some NotADirectoryError, Dir s es))"

definition shutil_rmtree :: "path \<Rightarrow> string \<Rightarrow> node \<Rightarrow> error option \<times> node" where
  "shutil_rmtree root x t = at_path root (rmtree_entry x) t"

text \<open>
  \<^verbatim>\<open>os.walk(path)\<close>, top down: one triple (root, dirs, files) per directory, a directory
  before the directories below it. A path that is missing or names a file yields nothing.
\<close>

fun walk_from :: "path \<Rightarrow> node \<Rightarrow> (path \<times> string list \<times> string list) list" where
  "walk_from root (File s) = []"
| "walk_from root (Dir s es) =
     (root, map fst (filter (\<lambda>e. is_dir (snd e)) es), map fst (filter (\<lambda>e. \<not> is_dir (snd e)) es))
       # concat (map (\<lambda>e. walk_from (root @ [fst e]) (snd e)) (filter (\<lambda>e. is_dir (snd e)) es))"

definition os_walk :: "path \<Rightarrow> node \<Rightarrow> (path \<times> string list \<times> string list) list" where
  "os_walk p t = (case lookup t p of None \<Rightarrow> [] | Some n \<Rightarrow> walk_from p n)"

subsection \<open>The file system normalizer\<close>

text \<open>
  \<open>rchmod\<close>: \<^verbatim>\<open>os.chmod\<close> on the path, then on every directory and file \<^verbatim>\<open>os.walk\<close> reports.
  (The source consumes the walk lazily; \<^verbatim>\<open>chmod\<close> changes no name, so the list is the same.)
\<close>

fun chmod_each :: "path \<Rightarrow> string list \<Rightarrow> nat \<Rightarrow> node \<Rightarrow> error option \<times> node" where
  "chmod_each root [] mode t = (None, t)"
| "chmod_each root (d # ds) mode t =
     (case os_chmod (root @ [d]) mode t of
        (Some e, t') \<Rightarrow> (Some e, t')
      | (None, t') \<Rightarrow> chmod_each root ds mode t')"

fun chmod_walk :: "(path \<times> string list \<times> string list) list \<Rightarrow> nat \<Rightarrow> node \<Rightarrow> error option \<times> node" where
  "chmod_walk [] mode t = (None, t)"
| "chmod_walk ((root, dirs, files) # rest) mode t =
     (case chmod_each root dirs mode t of
        (Some e, t') \<Rightarrow> (Some e, t')
      | (None, t') \<Rightarrow>
          (case chmod_each root files mode t' of
             (Some e, t'') \<Rightarrow> (Some e, t'')
           | (None, t'') \<Rightarrow> chmod_walk rest mode t''))"

definition rchmod :: "path \<Rightarrow> nat \<Rightarrow> node \<Rightarrow> error option \<times> node" where
  "rchmod p mode t =
     (case os_chmod p mode t of
        (Some e, t') \<Rightarrow> (Some e, t')
      | (None, t') \<Rightarrow> chmod_walk (os_walk p t') mode t')"

text \<open>\<^verbatim>\<open>f.replace(" ", "__")\<close>.\<close>

definition replace_spaces :: "string \<Rightarrow> string" where
  "replace_spaces f = concat (map (\<lambda>c. if c = CHR '' '' then ''__'' else [c]) f)"

text \<open>
  \<open>replace_spaces_in_names\<close>: the walk is listed first and reversed; for each triple the
  files and then the directories whose name has a space are renamed, and \<open>replaced\<close>
  counts the renames. An error of \<^verbatim>\<open>os.rename\<close> ends the procedure at once, with the renames
  made so far in place.
\<close>

fun rename_each :: "path \<Rightarrow> string list \<Rightarrow> node \<times> nat \<Rightarrow> error option \<times> node \<times> nat" where
  "rename_each root [] (t, replaced) = (None, t, replaced)"
| "rename_each root (f # fs) (t, replaced) =
     (if CHR '' '' \<in> set f then
        (case os_rename root f (replace_spaces f) t of
           (Some e, t') \<Rightarrow> (Some e, t', replaced)
         | (None, t') \<Rightarrow> rename_each root fs (t', replaced + 1))
      else rename_each root fs (t, replaced))"

fun rename_walk :: "(path \<times> string list \<times> string list) list \<Rightarrow> node \<times> nat \<Rightarrow> error option \<times> node \<times> nat" where
  "rename_walk [] st = (None, st)"
| "rename_walk ((root, dirs, files) # rest) st =
     (case rename_each root files st of
        (Some e, st') \<Rightarrow> (Some e, st')
      | (None, st') \<Rightarrow>
          (case rename_each root dirs st' of
             (Some e, st'') \<Rightarrow> (Some e, st'')
           | (None, st'') \<Rightarrow> rename_walk rest st''))"

definition replace_spaces_in_names :: "path \<Rightarrow> node \<Rightarrow> error option \<times> node \<times> log" where
  "replace_spaces_in_names p t =
     (let walk_list = rev (os_walk p t) in
      case rename_walk walk_list (t, 0) of
        (Some e, t', replaced) \<Rightarrow> (Some e, t', [])
      | (None, t', replaced) \<Rightarrow>
          (None, t', if replaced \<noteq> 0 then [(WARNING, ReplacedNames replaced p)] else []))"

subsection \<open>Publishing one resource\<close>

text \<open>
  \<open>iget\<close> stands for the external program: from the resource id and the catalog it gives
  the exit code, stdout, stderr, and the catalog as the program leaves it.
\<close>

type_synonym iget = "string \<Rightarrow> node \<Rightarrow> (int \<times> string \<times> string) \<times> node"

definition publish_resource :: "collection list \<Rightarrow> iget \<Rightarrow> string \<Rightarrow> node \<Rightarrow> error option \<times> node \<times> log" where
  "publish_resource store iget resource_id catalog =
     (let destination = [resource_id] in
      case get_latest_resource_timestamp store resource_id of
        Inl e \<Rightarrow> (Some e, catalog, [(INFO, Publishing resource_id)])
      | Inr timestamp \<Rightarrow>
          (case iget resource_id catalog of
             ((returncode, stdout, stderr), catalog1) \<Rightarrow>
               if returncode \<noteq> 0 then
                 (Some (NetCDFPublicationError resource_id returncode stdout stderr), catalog1,
                  [(INFO, Publishing resource_id),
                   (ERROR, PublishFailed resource_id returncode stdout stderr)])
               else
                 (case rchmod destination FILE_MODE catalog1 of
                    (Some e, catalog2) \<Rightarrow> (Some e, catalog2, [(INFO, Publishing resource_id)])
                  | (None, catalog2) \<Rightarrow>
                      (case replace_spaces_in_names destination catalog2 of
                         (Some e, catalog3, lg) \<Rightarrow>
                           (Some e, catalog3, (INFO, Publishing resource_id) # lg)
                       | (None, catalog3, lg) \<Rightarrow>
                           (case os_utime destination (timestamp, timestamp) catalog3 of
                              (Some e, catalog4) \<Rightarrow>
                                (Some e, catalog4, (INFO, Publishing resource_id) # lg)
                            | (None, catalog4) \<Rightarrow>
                                (None, catalog4,
                                 (INFO, Publishing resource_id) # lg
                                 @ [(INFO, Published resource_id timestamp)]))))))"

subsection \<open>Scanning the destination\<close>

text \<open>
  \<^verbatim>\<open>glob.glob(os.path.join(catalog_path, RESOURCE_ID_GLOB))\<close>: the entries of the catalog
  directory whose name matches the pattern. \<open>fnmatch\<close> covers the one metacharacter the
  pattern of the program uses, \<^verbatim>\<open>?\<close> for any single character; as \<^verbatim>\<open>glob\<close> does, a name
  that starts with a dot only matches a pattern that starts with a dot.
\<close>

fun fnmatch :: "string \<Rightarrow> string \<Rightarrow> bool" where
  "fnmatch [] [] = True"
| "fnmatch (c # cs) (p # ps) = ((p = CHR ''?'' \<or> p = c) \<and> fnmatch cs ps)"
| "fnmatch [] (p # ps) = False"
| "fnmatch (c # cs) [] = False"

definition ishidden :: "string \<Rightarrow> bool" where
  "ishidden s = (case s of [] \<Rightarrow> False | c # cs \<Rightarrow> c = CHR ''.'')"

definition glob_match :: "string \<Rightarrow> string \<Rightarrow> bool" where
  "glob_match pat n \<longleftrightarrow> (ishidden pat \<or> \<not> ishidden n) \<and> fnmatch n pat"

definition glob :: "node \<Rightarrow> string \<Rightarrow> (string \<times> node) list" where
  "glob catalog pat =
     (case catalog of
        File s \<Rightarrow> []
      | Dir s es \<Rightarrow> filter (\<lambda>e. glob_match pat (fst e)) es)"

definition scan_destination :: "node \<Rightarrow> (string \<times> int) list \<times> log" where
  "scan_destination catalog =
     (let resources = glob catalog RESOURCE_ID_GLOB
      in (map (\<lambda>resource. (fst resource, st_mtime (node_stat (snd resource)))) resources,
          [(INFO, DestinationResources (length resources))]))"

subsection \<open>Removing one resource\<close>

definition remove_resource :: "node \<Rightarrow> string \<Rightarrow> error option \<times> node \<times> log" where
  "remove_resource catalog resource_id =
     (case shutil_rmtree [] resource_id catalog of
        (Some e, catalog') \<Rightarrow> (Some e, catalog', [])
      | (None, catalog') \<Rightarrow> (None, catalog', [(INFO, Removed resource_id)]))"

subsection \<open>The sync driver\<close>

text \<open>\<^verbatim>\<open>list.index\<close> (the first position; \<^verbatim>\<open>ValueError\<close> when absent) and list subscription
  (\<^verbatim>\<open>IndexError\<close> out of range).\<close>

fun index_of :: "'a list \<Rightarrow> 'a \<Rightarrow> error + nat" where
  "index_of [] x = Inl ValueError"
| "index_of (y # ys) x =
     (if y = x then Inr 0 else (case index_of ys x of Inl e \<Rightarrow> Inl e | Inr i \<Rightarrow> Inr (Suc i)))"

definition subscript :: "'a list \<Rightarrow> nat \<Rightarrow> error + 'a" where
  "subscript xs i = (if i < length xs then Inr (xs ! i) else Inl IndexError)"

text \<open>
  One round of the first loop of \<^verbatim>\<open>sync_resources\<close>: the body of the \<^verbatim>\<open>try\<close> and the
  \<^verbatim>\<open>except NetCDFPublicationError\<close> clause, which logs a warning and lets the loop go on.
  Every other exception leaves the round as it is.
\<close>

definition sync_source_item ::
  "collection list \<Rightarrow> iget \<Rightarrow> string list \<Rightarrow> int list \<Rightarrow> string \<times> int \<Rightarrow> node
     \<Rightarrow> error option \<times> node \<times> log" where
  "sync_source_item store iget destination_ids destination_timestamps item catalog =
     (case item of (source_id, source_timestamp) \<Rightarrow>
       (case
          (if source_id \<notin> set destination_ids then
             (case publish_resource store iget source_id catalog of
                (r, c, lg) \<Rightarrow> (r, c, (INFO, NotInDestination source_id) # lg))
           else
             (case index_of destination_ids source_id of
                Inl e \<Rightarrow> (Some e, catalog, [])
              | Inr index \<Rightarrow>
                  (case subscript destination_timestamps index of
                     Inl e \<Rightarrow> (Some e, catalog, [])
                   | Inr destination_timestamp \<Rightarrow>
                       if source_timestamp > destination_timestamp then
                         (case publish_resource store iget source_id catalog of
                            (r, c, lg) \<Rightarrow>
                              (r, c, (INFO, SourceNewer source_id source_timestamp
                                              destination_timestamp) # lg))
                       else (None, catalog, []))))
        of
          (Some (NetCDFPublicationError i rc out err), c, lg) \<Rightarrow>
             (None, c, lg @ [(WARNING, SyncIncomplete)])
        | (r, c, lg) \<Rightarrow> (r, c, lg)))"

fun sync_publish ::
  "collection list \<Rightarrow> iget \<Rightarrow> string list \<Rightarrow> int list \<Rightarrow> (string \<times> int) list \<Rightarrow> node
     \<Rightarrow> error option \<times> node \<times> log" where
  "sync_publish store iget destination_ids destination_timestamps [] catalog = (None, catalog, [])"
| "sync_publish store iget destination_ids destination_timestamps (item # rest) catalog =
     (case sync_source_item store iget destination_ids destination_timestamps item catalog of
        (Some e, c, lg) \<Rightarrow> (Some e, c, lg)
      | (None, c, lg) \<Rightarrow>
          (case sync_publish store iget destination_ids destination_timestamps rest c of
             (r, c', lg') \<Rightarrow> (r, c', lg @ lg')))"

text \<open>One round of the second loop, and the loop: no exception is caught here.\<close>

definition sync_destination_item :: "string list \<Rightarrow> string \<times> int \<Rightarrow> node \<Rightarrow> error option \<times> node \<times> log" where
  "sync_destination_item source_ids item catalog =
     (case item of (destination_id, destination_timestamp) \<Rightarrow>
        if destination_id \<notin> set source_ids then
          (case remove_resource catalog destination_id of
             (r, c, lg) \<Rightarrow> (r, c, (INFO, NoLongerInSource destination_id) # lg))
        else (None, catalog, []))"

fun sync_remove :: "string list \<Rightarrow> (string \<times> int) list \<Rightarrow> node \<Rightarrow> error option \<times> node \<times> log" where
  "sync_remove source_ids [] catalog = (None, catalog, [])"
| "sync_remove source_ids (item # rest) catalog =
     (case sync_destination_item source_ids item catalog of
        (Some e, c, lg) \<Rightarrow> (Some e, c, lg)
      | (None, c, lg) \<Rightarrow>
          (case sync_remove source_ids rest c of
             (r, c', lg') \<Rightarrow> (r, c', lg @ lg')))"

text \<open>The run time is not modelled; the last message stands for the line that reports it.\<close>

definition sync_resources :: "collection list \<Rightarrow> iget \<Rightarrow> node \<Rightarrow> error option \<times> node \<times> log" where
  "sync_resources store iget catalog =
     (case scan_source store of
        (Inl e, lg1) \<Rightarrow> (Some e, catalog, (INFO, Syncing) # lg1)
      | (Inr source_netcdf, lg1) \<Rightarrow>
          (case scan_destination catalog of
             (destination_netcdf, lg2) \<Rightarrow>
               (let destination_ids = map fst destination_netcdf;
                    destination_timestamps = map snd destination_netcdf
                in case sync_publish store iget destination_ids destination_timestamps
                          source_netcdf catalog of
                     (Some e, catalog1, lg3) \<Rightarrow>
                       (Some e, catalog1, (INFO, Syncing) # lg1 @ lg2 @ lg3)
                   | (None, catalog1, lg3) \<Rightarrow>
                       (case scan_destination catalog1 of
                          (destination_netcdf', lg4) \<Rightarrow>
                            (let source_ids = map fst source_netcdf
                             in case sync_remove source_ids destination_netcdf' catalog1 of
                                  (Some e, catalog2, lg5) \<Rightarrow>
                                    (Some e, catalog2,
                                     (INFO, Syncing) # lg1 @ lg2 @ lg3 @ lg4 @ lg5)
                                | (None, catalog2, lg5) \<Rightarrow>
                                    (None, catalog2,
                                     (INFO, Syncing) # lg1 @ lg2 @ lg3 @ lg4 @ lg5
                                     @ [(INFO, Synced)]))))))"


section \<open>Notions used to state the properties\<close>

subsection \<open>Observations on the remote store and on the log\<close>

text \<open>The files a collection contains, at any depth.\<close>

fun contained_objects :: "collection \<Rightarrow> data_object list" where
  "contained_objects (Collection n m objs subs) = objs @ concat (map contained_objects subs)"

text \<open>
  What a run did is read off its log: \<open>publishing_ids\<close> lists the resources for which
  \<^verbatim>\<open>publish_resource\<close> was entered (its first statement logs \<open>Publishing\<close>), \<open>removed_ids\<close> the
  resources \<^verbatim>\<open>remove_resource\<close> deleted (it logs \<open>Removed\<close> after \<^verbatim>\<open>rmtree\<close> returned).
\<close>

definition publishing_ids :: "log \<Rightarrow> string list" where
  "publishing_ids lg = concat (map (\<lambda>entry. case snd entry of Publishing i \<Rightarrow> [i] | _ \<Rightarrow> []) lg)"

definition removed_ids :: "log \<Rightarrow> string list" where
  "removed_ids lg = concat (map (\<lambda>entry. case snd entry of Removed i \<Rightarrow> [i] | _ \<Rightarrow> []) lg)"

text \<open>
  The condition under which a source item is due: the destination inventory has no entry
  for its identifier, or the timestamp recorded there (the first entry, as \<^verbatim>\<open>list.index\<close>
  finds it) is smaller than the source timestamp.
\<close>

definition needs_publish :: "(string \<times> int) list \<Rightarrow> string \<times> int \<Rightarrow> bool" where
  "needs_publish destination_netcdf item \<longleftrightarrow>
     (case map_of destination_netcdf (fst item) of
        None \<Rightarrow> True
      | Some destination_timestamp \<Rightarrow> snd item > destination_timestamp)"

subsection \<open>Observations on trees\<close>

text \<open>
  The names of all files and directories below a node; a tree without a space in any of
  them; a well-formed tree, in which the names in one directory differ, as they do in a
  file system; a tree in which no two entries of a directory get the same name when their
  spaces are replaced.
\<close>

fun names_under :: "node \<Rightarrow> string list" where
  "names_under (File s) = []"
| "names_under (Dir s es) = concat (map (\<lambda>e. fst e # names_under (snd e)) es)"

definition no_spaces :: "node \<Rightarrow> bool" where
  "no_spaces t \<longleftrightarrow> (\<forall>n \<in> set (names_under t). CHR '' '' \<notin> set n)"

fun wf_node :: "node \<Rightarrow> bool" where
  "wf_node (File s) = True"
| "wf_node (Dir s es) = (distinct (map fst es) \<and> (\<forall>e \<in> set es. wf_node (snd e)))"

fun collision_free :: "node \<Rightarrow> bool" where
  "collision_free (File s) = True"
| "collision_free (Dir s es) =
     (distinct (map (\<lambda>e. replace_spaces (fst e)) es) \<and> (\<forall>e \<in> set es. collision_free (snd e)))"

text \<open>A tree in which every name, with its spaces replaced, is still within \<^verbatim>\<open>NAME_MAX\<close>.\<close>

definition names_fit :: "node \<Rightarrow> bool" where
  "names_fit t \<longleftrightarrow> (\<forall>n \<in> set (names_under t). length (replace_spaces n) \<le> NAME_MAX)"

text \<open>\<open>plug t p c\<close> is the tree \<open>t\<close> with the node at path \<open>p\<close> replaced by \<open>c\<close>.\<close>

definition plug :: "node \<Rightarrow> path \<Rightarrow> node \<Rightarrow> node" where
  "plug t p c = snd (at_path p (\<lambda>n. (None, c)) t)"

text \<open>\<^verbatim>\<open>os.path.isdir\<close>: the path names a directory.\<close>

definition isdir :: "node \<Rightarrow> path \<Rightarrow> bool" where
  "isdir t p = (case lookup t p of None \<Rightarrow> False | Some n \<Rightarrow> is_dir n)"

text \<open>The errors of the file system calls; the shape of a tree with its attributes erased.\<close>

definition os_error :: "error \<Rightarrow> bool" where
  "os_error e \<longleftrightarrow>
     e \<in> {FileNotFoundError, NotADirectoryError, IsADirectoryError, DirectoryNotEmpty, FileNameTooLong}"

fun erase :: "node \<Rightarrow> node" where
  "erase (File s) = File \<lparr>st_mode = 0, st_atime = 0, st_mtime = 0\<rparr>"
| "erase (Dir s es) = Dir \<lparr>st_mode = 0, st_atime = 0, st_mtime = 0\<rparr> (map (\<lambda>e. (fst e, erase (snd e))) es)"

subsection \<open>Examples\<close>

text \<open>
  A concrete environment for the examples: an \<^verbatim>\<open>iget\<close> that succeeds and writes the tree of
  the collection into the catalog (one file per data object, one directory per
  subcollection, with the attributes of a newly written file), an \<^verbatim>\<open>iget\<close> that always fails,
  a few stores and catalogs.
\<close>

definition fresh :: stat where
  "fresh = \<lparr>st_mode = 420, st_atime = 0, st_mtime = 0\<rparr>"

fun tree_of :: "collection \<Rightarrow> node" where
  "tree_of (Collection n m objs subs) =
     Dir fresh (map (\<lambda>obj. (obj_name obj, File fresh)) objs @ map (\<lambda>c. (coll_name c, tree_of c)) subs)"

definition iget_copy :: "collection list \<Rightarrow> iget" where
  "iget_copy store resource_id catalog =
     (case (find (\<lambda>c. coll_name c = resource_id) store, catalog) of
        (Some c, Dir s es) \<Rightarrow>
          ((0, [], []),
           Dir s (if resource_id \<in> fst ` set es then upd resource_id (tree_of c) es
                  else es @ [(resource_id, tree_of c)]))
      | _ \<Rightarrow> ((3, [], ''ERROR: cannot copy''), catalog))"

definition iget_fail :: iget where
  "iget_fail resource_id catalog = ((3, [], ''ERROR: connection refused''), catalog)"

definition id_a :: string where "id_a = ''aaaaaaaaaaaaaaaaaaaaaaaaaaaaaaaa''"

definition id_b :: string where "id_b = ''bbbbbbbbbbbbbbbbbbbbbbbbbbbbbbbb''"

definition id_c :: string where "id_c = ''cccccccccccccccccccccccccccccccc''"

definition id_d :: string where "id_d = ''dddddddddddddddddddddddddddddddd''"

definition store_ab :: "collection list" where
  "store_ab =
     [Collection id_a [''isPublic'' \<mapsto> ''true''] [\<lparr>obj_name = ''a b'', modify_time = 5\<rparr>]
        [Collection ''a__b'' Map.empty [\<lparr>obj_name = ''x.nc'', modify_time = 4\<rparr>] []],
      Collection id_b [''isPublic'' \<mapsto> ''true''] [\<lparr>obj_name = ''y.nc'', modify_time = 6\<rparr>] []]"

definition store_b :: "collection list" where
  "store_b = [Collection id_b [''isPublic'' \<mapsto> ''true''] [\<lparr>obj_name = ''y.nc'', modify_time = 6\<rparr>] []]"

definition coll_r1 :: collection where
  "coll_r1 = Collection ''r1'' [''isPublic'' \<mapsto> ''true''] []
        [Collection ''data'' Map.empty [\<lparr>obj_name = ''grid.NC'', modify_time = 5\<rparr>] []]"

definition store_mixed :: "collection list" where
  "store_mixed =
     [Collection ''bags'' [''isPublic'' \<mapsto> ''true''] [\<lparr>obj_name = ''a.nc'', modify_time = 1\<rparr>] [],
      coll_r1,
      Collection ''r2'' [''isPublic'' \<mapsto> ''True''] [\<lparr>obj_name = ''b.nc'', modify_time = 2\<rparr>] [],
      Collection ''r3'' [''isPublic'' \<mapsto> ''true''] [\<lparr>obj_name = ''notes.txt'', modify_time = 9\<rparr>] []]"

definition clash :: node where
  "clash = Dir fresh [(''a b'', File fresh), (''a__b'', Dir fresh [])]"

definition deep :: node where
  "deep = Dir fresh
     [(id_a, Dir fresh
        [(''a b'', Dir fresh
            [(''c d.nc'', File fresh), (''e f'', Dir fresh [(''g h.nc'', File fresh)])]),
         (''readme.txt'', File fresh)])]"

definition catalog_cd :: node where
  "catalog_cd = Dir fresh [(id_c, File fresh), (id_d, Dir fresh []), (''junk'', Dir fresh [])]"

definition catalog_d :: node where
  "catalog_d = Dir fresh [(id_d, Dir fresh [(''old.nc'', File fresh)]), (''junk'', Dir fresh []),
       (id_b, Dir (fresh\<lparr>st_mtime := 6\<rparr>) [])]"

section \<open>Auxiliary lemmas\<close>

subsection \<open>The remote store\<close>

lemma walk_objects: "concat (map (\<lambda>leaf. snd (snd leaf)) (walk c)) = contained_objects c"
proof (induction c)
  case (Collection n m objs subs)
  have "concat (map (\<lambda>leaf. snd (snd leaf)) (concat (map walk subs)))
        = concat (map contained_objects subs)"
    using Collection.IH by (induction subs) auto
  then show ?case by simp
qed

lemma fold_max_Max: "fold max ys (x::int) = Max (set (x # ys))"
proof (induction ys arbitrary: x)
  case Nil
  show ?case by simp
next
  case (Cons y ys)
  have "fold max (y # ys) x = Max (set (max y x # ys))"
    using Cons.IH by simp
  also have "\<dots> = Max (set (x # y # ys))"
    by (cases "set ys = {}") (auto simp: max.commute max.left_commute)
  finally show ?case .
qed

lemma py_max_Max: "xs \<noteq> [] \<Longrightarrow> py_max xs = Inr (Max (set xs))"
  by (cases xs) (simp_all add: py_max_def fold_max_Max del: set_simps)

lemma get_latest_found:
  "collections_get store resource_id = Inr c \<Longrightarrow>
   get_latest_resource_timestamp store resource_id = py_max (map modify_time (contained_objects c))"
  by (simp add: get_latest_resource_timestamp_def walk_objects)

lemma endswith_lower:
  "endswith (lower s) suf \<longleftrightarrow> (\<exists>stem ext. s = stem @ ext \<and> lower ext = suf)"
proof
  assume h: "endswith (lower s) suf"
  let ?k = "length s - length suf"
  have "s = take ?k s @ drop ?k s" by simp
  moreover have "lower (drop ?k s) = suf"
    using h by (simp add: endswith_def lower_def drop_map)
  ultimately show "\<exists>stem ext. s = stem @ ext \<and> lower ext = suf" by blast
next
  assume "\<exists>stem ext. s = stem @ ext \<and> lower ext = suf"
  then obtain stem ext where "s = stem @ ext" "lower ext = suf" by blast
  then show "endswith (lower s) suf"
    by (auto simp: endswith_def lower_def)
qed

lemma netcdf_objects_eq:
  "netcdf_objects c = filter (\<lambda>obj. endswith (lower (obj_name obj)) NETCDF_EXTENSION) (contained_objects c)"
proof -
  have "(\<lambda>(col, subcol, objs). objs) = (\<lambda>leaf::collection \<times> collection list \<times> data_object list. snd (snd leaf))"
    by (simp add: fun_eq_iff)
  then show ?thesis
    by (simp add: netcdf_objects_def walk_objects)
qed

lemma collections_get_distinct:
  "distinct (map coll_name store) \<Longrightarrow> c \<in> set store \<Longrightarrow> collections_get store (coll_name c) = Inr c"
  by (induction store) (auto simp: collections_get_def)

lemma source_timestamps_ok:
  assumes "distinct (map coll_name store)"
    and "set cs \<subseteq> set store"
    and "\<forall>c \<in> set cs. contained_objects c \<noteq> []"
  shows "\<exists>inv. source_timestamps store (map coll_name cs) = Inr inv \<and> map fst inv = map coll_name cs"
  using assms(2,3)
proof (induction cs)
  case Nil
  show ?case by simp
next
  case (Cons c cs)
  have "collections_get store (coll_name c) = Inr c"
    using assms(1) Cons.prems(1) by (simp add: collections_get_distinct)
  then have "get_latest_resource_timestamp store (coll_name c)
             = Inr (Max (set (map modify_time (contained_objects c))))"
    using Cons.prems(2) by (simp add: get_latest_found py_max_Max)
  moreover obtain inv where "source_timestamps store (map coll_name cs) = Inr inv"
      "map fst inv = map coll_name cs"
    using Cons by auto
  ultimately show ?case by simp
qed

subsection \<open>The log of the publish loop\<close>

lemma publishing_ids_append [simp]: "publishing_ids (xs @ ys) = publishing_ids xs @ publishing_ids ys"
  by (simp add: publishing_ids_def)

lemma publishing_ids_simps [simp]:
  "publishing_ids [] = []"
  "publishing_ids ((l, Publishing i) # lg) = i # publishing_ids lg"
  "publishing_ids ((l, PublishFailed i rc out err) # lg) = publishing_ids lg"
  "publishing_ids ((l, Published i ts) # lg) = publishing_ids lg"
  "publishing_ids ((l, ReplacedNames k p) # lg) = publishing_ids lg"
  "publishing_ids ((l, NotInDestination i) # lg) = publishing_ids lg"
  "publishing_ids ((l, SourceNewer i ts dts) # lg) = publishing_ids lg"
  "publishing_ids ((l, SyncIncomplete) # lg) = publishing_ids lg"
  by (simp_all add: publishing_ids_def)

lemma replace_spaces_log:
  "replace_spaces_in_names p t = (r, t', lg) \<Longrightarrow> lg = [] \<or> (\<exists>k. lg = [(WARNING, ReplacedNames k p)])"
  by (auto simp: replace_spaces_in_names_def Let_def split: prod.splits option.splits if_splits)

lemma publish_resource_publishing:
  "publishing_ids (snd (snd (publish_resource store iget resource_id catalog))) = [resource_id]"
proof -
  have "\<And>c r t' lg. replace_spaces_in_names [resource_id] c = (r, t', lg) \<Longrightarrow> publishing_ids lg = []"
    using replace_spaces_log by fastforce
  then show ?thesis
    by (auto simp: publish_resource_def Let_def split: sum.splits prod.splits option.splits)
qed

lemma index_of_map_fst:
  "map_of dest x = Some dts \<Longrightarrow>
   \<exists>i. index_of (map fst dest) x = Inr i \<and> subscript (map snd dest) i = Inr dts"
proof (induction dest)
  case Nil
  then show ?case by simp
next
  case (Cons e dest)
  show ?case
  proof (cases "fst e = x")
    case True
    with Cons.prems show ?thesis by (cases e) (simp add: subscript_def)
  next
    case False
    with Cons.prems have "map_of dest x = Some dts" by (cases e) (simp split: if_splits)
    then obtain i where "index_of (map fst dest) x = Inr i" "subscript (map snd dest) i = Inr dts"
      using Cons.IH by blast
    with False show ?thesis by (simp add: subscript_def split: if_splits)
  qed
qed

lemma map_of_in_dom: "map_of es x = Some c \<Longrightarrow> x \<in> fst ` set es"
  by (metis map_of_eq_None_iff option.distinct(1))

lemma needs_publish_iff:
  "needs_publish dest (source_id, source_timestamp) \<longleftrightarrow>
     source_id \<notin> fst ` set dest \<or> (\<exists>dts. map_of dest source_id = Some dts \<and> dts < source_timestamp)"
  by (auto simp: needs_publish_def map_of_eq_None_iff split: option.splits dest: map_of_in_dom)

lemma sync_source_item_cases:
  "sync_source_item store iget (map fst dest) (map snd dest) (source_id, source_timestamp) catalog =
     (if needs_publish dest (source_id, source_timestamp) then
        (case publish_resource store iget source_id catalog of
           (Some (NetCDFPublicationError i rc out err), c, lg) \<Rightarrow>
              (None, c, (INFO, (case map_of dest source_id of None \<Rightarrow> NotInDestination source_id
                    | Some dts \<Rightarrow> SourceNewer source_id source_timestamp dts)) # lg @ [(WARNING, SyncIncomplete)])
         | (r, c, lg) \<Rightarrow> (r, c, (INFO, (case map_of dest source_id of None \<Rightarrow> NotInDestination source_id
                    | Some dts \<Rightarrow> SourceNewer source_id source_timestamp dts)) # lg))
      else (None, catalog, []))"
proof (cases "map_of dest source_id")
  case None
  then have "source_id \<notin> set (map fst dest)"
    by (simp add: map_of_eq_None_iff)
  with None show ?thesis
    by (simp add: sync_source_item_def needs_publish_def split: prod.splits option.splits error.splits)
next
  case (Some dts)
  then have "source_id \<in> set (map fst dest)"
    by (metis map_of_eq_None_iff option.distinct(1) set_map)
  moreover obtain i where "index_of (map fst dest) source_id = Inr i" "subscript (map snd dest) i = Inr dts"
    using index_of_map_fst [OF Some] by blast
  ultimately show ?thesis using Some
    by (simp add: sync_source_item_def needs_publish_def split: prod.splits option.splits error.splits)
qed

lemma sync_source_item_publishing:
  "publishing_ids (snd (snd (sync_source_item store iget (map fst dest) (map snd dest) (source_id, source_timestamp) catalog)))
   = (if needs_publish dest (source_id, source_timestamp) then [source_id] else [])"
  using publish_resource_publishing [of store iget source_id catalog]
  by (auto simp: sync_source_item_cases split: prod.splits option.splits error.splits)

lemma sync_publish_publishing:
  "sync_publish store iget (map fst dest) (map snd dest) source catalog = (r, catalog', lg) \<Longrightarrow>
     prefix (publishing_ids lg) (map fst (filter (needs_publish dest) source))
     \<and> (r = None \<longrightarrow> publishing_ids lg = map fst (filter (needs_publish dest) source))"
proof (induction source arbitrary: catalog r catalog' lg)
  case Nil
  then show ?case by simp
next
  case (Cons item source)
  obtain source_id source_timestamp where item: "item = (source_id, source_timestamp)"
    by (cases item)
  obtain r1 c1 lg1 where one:
    "sync_source_item store iget (map fst dest) (map snd dest) item catalog = (r1, c1, lg1)"
    by (metis prod_cases3)
  have ids: "publishing_ids lg1 = (if needs_publish dest item then [fst item] else [])"
    using sync_source_item_publishing [of store iget dest source_id source_timestamp catalog] one
    by (simp add: item)
  show ?case
  proof (cases r1)
    case (Some e)
    with one Cons.prems have "r = Some e" "lg = lg1" by simp_all
    with ids show ?thesis by simp
  next
    case None
    obtain r2 c2 lg2 where rest:
      "sync_publish store iget (map fst dest) (map snd dest) source c1 = (r2, c2, lg2)"
      by (metis prod_cases3)
    with None one Cons.prems have "r = r2" "lg = lg1 @ lg2" by simp_all
    with Cons.IH [OF rest] ids show ?thesis by simp
  qed
qed

subsection \<open>The removal loop and the destination scan\<close>

lemma removed_ids_append [simp]: "removed_ids (xs @ ys) = removed_ids xs @ removed_ids ys"
  by (simp add: removed_ids_def)

lemma removed_ids_simps [simp]:
  "removed_ids [] = []"
  "removed_ids ((l, Removed i) # lg) = i # removed_ids lg"
  "removed_ids ((l, NoLongerInSource i) # lg) = removed_ids lg"
  "removed_ids ((l, Syncing) # lg) = removed_ids lg"
  "removed_ids ((l, Synced) # lg) = removed_ids lg"
  "removed_ids ((l, DestinationResources k) # lg) = removed_ids lg"
  by (simp_all add: removed_ids_def)

lemma removed_ids_simps2 [simp]:
  "removed_ids ((l, Publishing i) # lg) = removed_ids lg"
  "removed_ids ((l, PublishFailed i rc out err) # lg) = removed_ids lg"
  "removed_ids ((l, Published i ts) # lg) = removed_ids lg"
  "removed_ids ((l, ReplacedNames k p) # lg) = removed_ids lg"
  "removed_ids ((l, NotInDestination i) # lg) = removed_ids lg"
  "removed_ids ((l, SourceNewer i ts dts) # lg) = removed_ids lg"
  "removed_ids ((l, SyncIncomplete) # lg) = removed_ids lg"
  "removed_ids ((l, IncludedSubcollections k) # lg) = removed_ids lg"
  "removed_ids ((l, PublicSubcollections k) # lg) = removed_ids lg"
  "removed_ids ((l, NetCDFObjects i k) # lg) = removed_ids lg"
  "removed_ids ((l, PublicNetCDF k) # lg) = removed_ids lg"
  by (simp_all add: removed_ids_def)

lemma map_of_filter_other: "x \<noteq> y \<Longrightarrow> map_of (filter (\<lambda>e. fst e \<noteq> y) es) x = map_of es x"
  by (induction es) auto

lemma map_of_filter_same: "map_of (filter (\<lambda>e. fst e \<noteq> y) es) y = None"
  by (induction es) auto

lemma lookup_top: "lookup (Dir s es) [x] = map_of es x"
  by (simp split: option.splits)

lemma remove_resource_cases:
  "remove_resource catalog resource_id = (r, catalog', lg) \<Longrightarrow>
     (r = None \<and> lg = [(INFO, Removed resource_id)] \<and> lookup catalog' [resource_id] = None
        \<and> (\<forall>x. x \<noteq> resource_id \<longrightarrow> lookup catalog' [x] = lookup catalog [x]))
   \<or> (r \<noteq> None \<and> lg = [] \<and> catalog' = catalog)"
proof (cases catalog)
  case (File s)
  assume "remove_resource catalog resource_id = (r, catalog', lg)"
  with File show ?thesis
    by (auto simp: remove_resource_def shutil_rmtree_def)
next
  case (Dir s es)
  assume "remove_resource catalog resource_id = (r, catalog', lg)"
  with Dir show ?thesis
    by (auto simp: remove_resource_def shutil_rmtree_def map_of_filter_other map_of_filter_same
        split: option.splits if_splits)
qed

lemma sync_destination_item_cases:
  "sync_destination_item source_ids (destination_id, ts) catalog = (r, catalog', lg) \<Longrightarrow>
     (destination_id \<in> set source_ids \<and> r = None \<and> catalog' = catalog \<and> lg = [])
   \<or> (destination_id \<notin> set source_ids \<and> r = None
        \<and> lg = [(INFO, NoLongerInSource destination_id), (INFO, Removed destination_id)]
        \<and> lookup catalog' [destination_id] = None
        \<and> (\<forall>x. x \<noteq> destination_id \<longrightarrow> lookup catalog' [x] = lookup catalog [x]))
   \<or> (destination_id \<notin> set source_ids \<and> r \<noteq> None \<and> catalog' = catalog
        \<and> lg = [(INFO, NoLongerInSource destination_id)])"
proof (cases "destination_id \<in> set source_ids")
  case True
  assume "sync_destination_item source_ids (destination_id, ts) catalog = (r, catalog', lg)"
  with True show ?thesis by (simp add: sync_destination_item_def)
next
  case False
  assume h: "sync_destination_item source_ids (destination_id, ts) catalog = (r, catalog', lg)"
  obtain r1 c1 lg1 where rm: "remove_resource catalog destination_id = (r1, c1, lg1)"
    by (metis prod_cases3)
  with h False have "r = r1" "catalog' = c1" "lg = (INFO, NoLongerInSource destination_id) # lg1"
    by (simp_all add: sync_destination_item_def)
  with remove_resource_cases [OF rm] False show ?thesis by auto
qed

lemma sync_remove_log:
  "sync_remove source_ids dest catalog = (r, catalog', lg) \<Longrightarrow>
     prefix (removed_ids lg) (filter (\<lambda>x. x \<notin> set source_ids) (map fst dest))
     \<and> (r = None \<longrightarrow> removed_ids lg = filter (\<lambda>x. x \<notin> set source_ids) (map fst dest))"
proof (induction dest arbitrary: catalog r catalog' lg)
  case Nil
  then show ?case by simp
next
  case (Cons item dest)
  obtain d ts where item: "item = (d, ts)" by (cases item)
  obtain r1 c1 lg1 where one: "sync_destination_item source_ids (d, ts) catalog = (r1, c1, lg1)"
    by (metis prod_cases3)
  note cases1 = sync_destination_item_cases [OF one]
  show ?case
  proof (cases r1)
    case (Some e)
    with one Cons.prems item have "r = Some e" "lg = lg1" by simp_all
    with cases1 Some show ?thesis by auto
  next
    case None
    obtain r2 c2 lg2 where rest: "sync_remove source_ids dest c1 = (r2, c2, lg2)"
      by (metis prod_cases3)
    with None one Cons.prems item have "r = r2" "lg = lg1 @ lg2" by simp_all
    with Cons.IH [OF rest] cases1 None item show ?thesis by auto
  qed
qed

lemma sync_remove_catalog:
  "sync_remove source_ids dest catalog = (r, catalog', lg) \<Longrightarrow>
     lookup catalog' [x] = (if x \<in> set (removed_ids lg) then None else lookup catalog [x])"
proof (induction dest arbitrary: catalog r catalog' lg)
  case Nil
  then show ?case by simp
next
  case (Cons item dest)
  obtain d ts where item: "item = (d, ts)" by (cases item)
  obtain r1 c1 lg1 where one: "sync_destination_item source_ids (d, ts) catalog = (r1, c1, lg1)"
    by (metis prod_cases3)
  note cases1 = sync_destination_item_cases [OF one]
  show ?case
  proof (cases r1)
    case (Some e)
    with one Cons.prems item have "catalog' = c1" "lg = lg1" by simp_all
    with cases1 Some show ?thesis by auto
  next
    case None
    obtain r2 c2 lg2 where rest: "sync_remove source_ids dest c1 = (r2, c2, lg2)"
      by (metis prod_cases3)
    with None one Cons.prems item have eq: "catalog' = c2" "lg = lg1 @ lg2" by simp_all
    have "lookup c2 [x] = (if x \<in> set (removed_ids lg2) then None else lookup c1 [x])"
      by (rule Cons.IH [OF rest])
    with cases1 None eq show ?thesis by auto
  qed
qed

lemma sync_remove_append:
  "sync_remove source_ids (xs @ ys) catalog =
     (case sync_remove source_ids xs catalog of
        (Some e, c, lg) \<Rightarrow> (Some e, c, lg)
      | (None, c, lg) \<Rightarrow>
          (case sync_remove source_ids ys c of (r, c', lg') \<Rightarrow> (r, c', lg @ lg')))"
proof (induction xs arbitrary: catalog)
  case Nil
  show ?case by (simp split: prod.splits)
next
  case (Cons item xs)
  show ?case
    by (simp add: Cons.IH split: prod.splits option.splits)
qed

lemma fnmatch_question: "fnmatch n (replicate k (CHR ''?'')) \<longleftrightarrow> length n = k"
proof (induction k arbitrary: n)
  case 0
  show ?case by (cases n) simp_all
next
  case (Suc k)
  show ?case by (cases n) (simp_all add: Suc.IH)
qed

lemma glob_pattern: "RESOURCE_ID_GLOB = replicate 32 (CHR ''?'')"
  by (simp add: RESOURCE_ID_GLOB_def eval_nat_numeral)

lemma glob_match_resource_id:
  "glob_match RESOURCE_ID_GLOB n \<longleftrightarrow> length n = 32 \<and> take 1 n \<noteq> ''.''"
proof -
  have "\<not> ishidden RESOURCE_ID_GLOB" by (simp add: RESOURCE_ID_GLOB_def ishidden_def)
  moreover have "fnmatch n RESOURCE_ID_GLOB \<longleftrightarrow> length n = 32"
    unfolding glob_pattern by (rule fnmatch_question)
  moreover have "ishidden n \<longleftrightarrow> take 1 n = ''.''"
    by (cases n) (simp_all add: ishidden_def)
  ultimately show ?thesis by (auto simp: glob_match_def)
qed

lemma scan_destination_ids:
  "x \<in> fst ` set (fst (scan_destination catalog)) \<Longrightarrow> glob_match RESOURCE_ID_GLOB x"
  by (cases catalog) (auto simp: scan_destination_def glob_def Let_def)

subsection \<open>System calls below a path\<close>

text \<open>
  A call on the path \<open>p @ q\<close> is the call on \<open>q\<close> made at the node \<open>p\<close> names; so a run of
  renames whose roots all start with \<open>p\<close> is the run on the subtree at \<open>p\<close>, put back in place.
\<close>

lemma upd_names [simp]: "map fst (upd x c es) = map fst es"
  by (induction es) auto

lemma map_of_upd_same: "x \<in> fst ` set es \<Longrightarrow> map_of (upd x c es) x = Some c"
  by (induction es) auto

lemma map_of_upd_other: "y \<noteq> x \<Longrightarrow> map_of (upd x c es) y = map_of es y"
  by (induction es) auto

lemma upd_same: "map_of es x = Some c \<Longrightarrow> upd x c es = es"
  by (induction es) (auto split: if_splits)

lemma upd_upd [simp]: "upd x c (upd x c' es) = upd x c es"
  by (induction es) auto

lemma set_upd:
  "distinct (map fst es) \<Longrightarrow> e \<in> set (upd x c es) \<Longrightarrow> e = (x, c) \<or> (e \<in> set es \<and> fst e \<noteq> x)"
  by (induction es) (auto split: if_splits simp: rev_image_eqI)

lemma set_upd_other: "e \<in> set es \<Longrightarrow> fst e \<noteq> x \<Longrightarrow> e \<in> set (upd x c es)"
  by (induction es) auto

lemma at_path_append: "at_path (p @ q) f t = at_path p (at_path q f) t"
proof (induction p arbitrary: t)
  case Nil
  show ?case by simp
next
  case (Cons x p)
  show ?case by (cases t) (simp_all add: Cons.IH split: option.splits)
qed

lemma at_path_lookup:
  "lookup t p = Some c \<Longrightarrow> at_path p f t = (fst (f c), plug t p (snd (f c)))"
proof (induction p arbitrary: t)
  case Nil
  then show ?case by (simp add: plug_def)
next
  case (Cons x p)
  then obtain s es d where t: "t = Dir s es" and d: "map_of es x = Some d" and l: "lookup d p = Some c"
    by (cases t) (auto split: option.splits)
  have "at_path p f d = (fst (f c), plug d p (snd (f c)))"
    using l by (rule Cons.IH)
  then show ?case
    using t d by (simp add: plug_def split: prod.splits)
qed

lemma plug_Cons:
  "map_of es x = Some d \<Longrightarrow> plug (Dir s es) (x # p) c = Dir s (upd x (plug d p c) es)"
  by (simp add: plug_def split: prod.splits)

lemma plug_Nil [simp]: "plug t [] c = c"
  by (simp add: plug_def)

lemma lookup_plug: "lookup t p = Some c \<Longrightarrow> lookup (plug t p c') p = Some c'"
proof (induction p arbitrary: t)
  case Nil
  show ?case by simp
next
  case (Cons x p)
  then obtain s es d where t: "t = Dir s es" and d: "map_of es x = Some d" and l: "lookup d p = Some c"
    by (cases t) (auto split: option.splits)
  show ?case
    using t d Cons.IH [OF l] by (simp add: plug_Cons map_of_upd_same map_of_in_dom)
qed

lemma plug_plug: "lookup t p = Some c \<Longrightarrow> plug (plug t p c') p c'' = plug t p c''"
proof (induction p arbitrary: t)
  case Nil
  show ?case by simp
next
  case (Cons x p)
  then obtain s es d where t: "t = Dir s es" and d: "map_of es x = Some d" and l: "lookup d p = Some c"
    by (cases t) (auto split: option.splits)
  have "map_of (upd x (plug d p c') es) x = Some (plug d p c')"
    using d by (simp add: map_of_upd_same map_of_in_dom)
  then show ?case
    using t d Cons.IH [OF l] by (simp add: plug_Cons)
qed

lemma plug_same: "lookup t p = Some c \<Longrightarrow> plug t p c = t"
proof (induction p arbitrary: t)
  case Nil
  then show ?case by simp
next
  case (Cons x p)
  then obtain s es d where t: "t = Dir s es" and d: "map_of es x = Some d" and l: "lookup d p = Some c"
    by (cases t) (auto split: option.splits)
  show ?case
    using t d Cons.IH [OF l] by (simp add: plug_Cons upd_same)
qed

lemma os_rename_prefix:
  "lookup t p = Some c \<Longrightarrow>
   os_rename (p @ q) old new t = (fst (os_rename q old new c), plug t p (snd (os_rename q old new c)))"
  by (simp add: os_rename_def at_path_append at_path_lookup)

lemma rename_each_prefix:
  "lookup t p = Some c \<Longrightarrow>
   rename_each (p @ q) fs (t, k) =
     (case rename_each q fs (c, k) of (r, c', k') \<Rightarrow> (r, plug t p c', k'))"
proof (induction fs arbitrary: t c k)
  case Nil
  then show ?case by (simp add: plug_same)
next
  case (Cons f fs)
  show ?case
  proof (cases "CHR '' '' \<in> set f")
    case False
    then show ?thesis using Cons.IH [OF Cons.prems] by simp
  next
    case True
    obtain r1 c1 where one: "os_rename q f (replace_spaces f) c = (r1, c1)"
      by (cases "os_rename q f (replace_spaces f) c")
    have pre: "os_rename (p @ q) f (replace_spaces f) t = (r1, plug t p c1)"
      using os_rename_prefix [OF Cons.prems] one by simp
    show ?thesis
    proof (cases r1)
      case (Some e)
      with True one pre show ?thesis by simp
    next
      case None
      have "lookup (plug t p c1) p = Some c1"
        using Cons.prems by (rule lookup_plug)
      then have "rename_each (p @ q) fs (plug t p c1, k + 1) =
          (case rename_each q fs (c1, k + 1) of (r, c', k') \<Rightarrow> (r, plug (plug t p c1) p c', k'))"
        by (rule Cons.IH)
      with True None one pre show ?thesis
        by (simp add: plug_plug [OF Cons.prems])
    qed
  qed
qed

lemma rename_walk_prefix:
  "lookup t p = Some c \<Longrightarrow>
   rename_walk (map (\<lambda>(r, ds, fs). (p @ r, ds, fs)) w) (t, k) =
     (case rename_walk w (c, k) of (r, c', k') \<Rightarrow> (r, plug t p c', k'))"
proof (induction w arbitrary: t c k)
  case Nil
  then show ?case by (simp add: plug_same)
next
  case (Cons triple w)
  obtain q ds fs where triple: "triple = (q, ds, fs)" by (cases triple)
  obtain r1 c1 k1 where files: "rename_each q fs (c, k) = (r1, c1, k1)"
    by (metis prod_cases3)
  have files': "rename_each (p @ q) fs (t, k) = (r1, plug t p c1, k1)"
    using rename_each_prefix [OF Cons.prems, of q fs k] files by simp
  show ?case
  proof (cases r1)
    case (Some e)
    with triple files files' show ?thesis by simp
  next
    case None
    have l1: "lookup (plug t p c1) p = Some c1"
      using Cons.prems by (rule lookup_plug)
    obtain r2 c2 k2 where dirs: "rename_each q ds (c1, k1) = (r2, c2, k2)"
      by (metis prod_cases3)
    have dirs': "rename_each (p @ q) ds (plug t p c1, k1) = (r2, plug t p c2, k2)"
      using rename_each_prefix [OF l1, of q ds k1] dirs by (simp add: plug_plug [OF Cons.prems])
    show ?thesis
    proof (cases r2)
      case (Some e)
      with None triple files files' dirs dirs' show ?thesis by simp
    next
      case None2: None
      have l2: "lookup (plug t p c2) p = Some c2"
        using Cons.prems by (rule lookup_plug)
      have "rename_walk (map (\<lambda>(r, ds, fs). (p @ r, ds, fs)) w) (plug t p c2, k2) =
          (case rename_walk w (c2, k2) of (r, c', k') \<Rightarrow> (r, plug (plug t p c2) p c', k'))"
        using l2 by (rule Cons.IH)
      with None None2 triple files files' dirs dirs' show ?thesis
        by (simp add: plug_plug [OF Cons.prems])
    qed
  qed
qed

lemma walk_from_prefix:
  "walk_from (p @ q) c = map (\<lambda>(r, ds, fs). (p @ r, ds, fs)) (walk_from q c)"
proof (induction q c rule: walk_from.induct)
  case (1 root s)
  show ?case by simp
next
  case (2 root s es)
  let ?kids = "filter (\<lambda>e. is_dir (snd e)) es"
  let ?pre = "\<lambda>(r, ds, fs). (p @ r, ds :: string list, fs :: string list)"
  have "map (\<lambda>e. walk_from (p @ root @ [fst e]) (snd e)) ?kids
      = map (\<lambda>e. map ?pre (walk_from (root @ [fst e]) (snd e))) ?kids"
    by (rule map_cong [OF refl]) (use 2 in simp)
  then have "concat (map (\<lambda>e. walk_from (p @ root @ [fst e]) (snd e)) ?kids)
      = map ?pre (concat (map (\<lambda>e. walk_from (root @ [fst e]) (snd e)) ?kids))"
    by (simp only: map_concat map_map comp_def)
  then show ?case by simp
qed

lemma rename_walk_append:
  "rename_walk (xs @ ys) st =
     (case rename_walk xs st of (Some e, st') \<Rightarrow> (Some e, st') | (None, st') \<Rightarrow> rename_walk ys st')"
proof (induction xs arbitrary: st)
  case Nil
  show ?case by simp
next
  case (Cons triple xs)
  obtain q ds fs where "triple = (q, ds, fs)" by (cases triple)
  then show ?case
    by (simp add: Cons.IH split: prod.splits option.splits)
qed

lemma os_walk_found:
  "lookup t p = Some c \<Longrightarrow>
   rev (os_walk p t) = map (\<lambda>(r, ds, fs). (p @ r, ds, fs)) (rev (walk_from [] c))"
  using walk_from_prefix [of p "[]" c] by (simp add: os_walk_def rev_map)

lemma replace_spaces_in_names_found:
  assumes "lookup t p = Some c"
  shows "replace_spaces_in_names p t =
     (case rename_walk (rev (walk_from [] c)) (c, 0) of
        (Some e, c', replaced) \<Rightarrow> (Some e, plug t p c', [])
      | (None, c', replaced) \<Rightarrow>
          (None, plug t p c', if replaced \<noteq> 0 then [(WARNING, ReplacedNames replaced p)] else []))"
  unfolding replace_spaces_in_names_def Let_def os_walk_found [OF assms]
    rename_walk_prefix [OF assms]
  by (simp split: prod.splits option.splits)

subsection \<open>Renaming, deepest first\<close>

text \<open>
  The reversed walk handles the directories below a directory before the directory itself.
  By induction on the tree: when the renames below each subdirectory have left no space
  there, the renames in the directory itself leave no entry with a space, since every name
  with a space is in the listing and a new name has none.
\<close>

lemma replace_spaces_no_space: "CHR '' '' \<notin> set (replace_spaces f)"
  by (induction f) (auto simp: replace_spaces_def)

lemma rename_entry_entries:
  assumes "rename_entry old new (Dir s es) = (None, t')" and "old \<noteq> new"
  shows "\<exists>es'. t' = Dir s es' \<and>
           (\<forall>e \<in> set es'. snd e \<in> snd ` set es \<and> (fst e \<noteq> new \<longrightarrow> e \<in> set es \<and> fst e \<noteq> old))"
proof -
  have key: "\<And>xs. \<forall>e \<in> set (rename_key old new xs).
      snd e \<in> snd ` set xs \<and> (fst e \<noteq> new \<longrightarrow> e \<in> set xs \<and> fst e \<noteq> old)"
    by (auto simp: rename_key_def intro: rev_image_eqI)
  from assms have "t' = Dir s (rename_key old new es)
      \<or> t' = Dir s (rename_key old new (filter (\<lambda>e. fst e \<noteq> new) es))"
    by (auto split: option.splits if_splits)
  then show ?thesis
  proof
    assume "t' = Dir s (rename_key old new es)"
    with key [of es] show ?thesis by blast
  next
    assume t': "t' = Dir s (rename_key old new (filter (\<lambda>e. fst e \<noteq> new) es))"
    have "\<forall>e \<in> set (rename_key old new (filter (\<lambda>e. fst e \<noteq> new) es)).
        snd e \<in> snd ` set es \<and> (fst e \<noteq> new \<longrightarrow> e \<in> set es \<and> fst e \<noteq> old)"
      using key [of "filter (\<lambda>e. fst e \<noteq> new) es"] by auto
    with t' show ?thesis by blast
  qed
qed

lemma rename_each_entries:
  "rename_each [] names (Dir s es, k) = (None, t', k') \<Longrightarrow>
   \<exists>es'. t' = Dir s es' \<and>
     (\<forall>e \<in> set es'. snd e \<in> snd ` set es
        \<and> (CHR '' '' \<in> set (fst e) \<longrightarrow> e \<in> set es \<and> fst e \<notin> set names))"
proof (induction names arbitrary: es k)
  case Nil
  then show ?case by auto
next
  case (Cons f names)
  show ?case
  proof (cases "CHR '' '' \<in> set f")
    case False
    with Cons.prems have "rename_each [] names (Dir s es, k) = (None, t', k')" by simp
    from Cons.IH [OF this] False show ?thesis by auto
  next
    case True
    then have neq: "f \<noteq> replace_spaces f"
      using replace_spaces_no_space [of f] by auto
    obtain r1 t1 where one: "rename_entry f (replace_spaces f) (Dir s es) = (r1, t1)"
      by (cases "rename_entry f (replace_spaces f) (Dir s es)")
    with True Cons.prems have r1: "r1 = None"
      and rest: "rename_each [] names (t1, k + 1) = (None, t', k')"
      by (auto simp: os_rename_def split: option.splits)
    from rename_entry_entries [OF one [unfolded r1] neq] obtain es1 where t1: "t1 = Dir s es1"
      and es1: "\<forall>e \<in> set es1. snd e \<in> snd ` set es
          \<and> (fst e \<noteq> replace_spaces f \<longrightarrow> e \<in> set es \<and> fst e \<noteq> f)"
      by blast
    from Cons.IH [OF rest [unfolded t1]] obtain es' where t': "t' = Dir s es'"
      and es': "\<forall>e \<in> set es'. snd e \<in> snd ` set es1
          \<and> (CHR '' '' \<in> set (fst e) \<longrightarrow> e \<in> set es1 \<and> fst e \<notin> set names)"
      by blast
    have "\<forall>e \<in> set es'. snd e \<in> snd ` set es
        \<and> (CHR '' '' \<in> set (fst e) \<longrightarrow> e \<in> set es \<and> fst e \<notin> set (f # names))"
    proof
      fix e assume e: "e \<in> set es'"
      with es' have n1: "snd e \<in> snd ` set es1" by blast
      then obtain e1 where "e1 \<in> set es1" "snd e = snd e1" by auto
      with es1 have n: "snd e \<in> snd ` set es" by metis
      have "e \<in> set es \<and> fst e \<notin> set (f # names)" if sp: "CHR '' '' \<in> set (fst e)"
      proof -
        from es' e sp have "e \<in> set es1" "fst e \<notin> set names" by auto
        moreover have "fst e \<noteq> replace_spaces f"
          using sp replace_spaces_no_space [of f] by auto
        ultimately show ?thesis using es1 by auto
      qed
      with n show "snd e \<in> snd ` set es
        \<and> (CHR '' '' \<in> set (fst e) \<longrightarrow> e \<in> set es \<and> fst e \<notin> set (f # names))" by blast
    qed
    with t' show ?thesis by blast
  qed
qed

lemma no_spaces_Dir:
  "no_spaces (Dir s es) \<longleftrightarrow> (\<forall>e \<in> set es. CHR '' '' \<notin> set (fst e) \<and> no_spaces (snd e))"
  by (auto simp: no_spaces_def)

lemma no_spaces_File [simp]: "no_spaces (File s)"
  by (simp add: no_spaces_def)

lemma rename_children:
  assumes "\<forall>e \<in> set ks. \<forall>k c' k'. rename_walk (rev (walk_from [] (snd e))) (snd e, k) = (None, c', k')
              \<longrightarrow> no_spaces c'"
    and "distinct (map fst es)" and "set ks \<subseteq> set es" and "distinct ks"
    and "\<forall>e \<in> set es. no_spaces (snd e) \<or> e \<in> set ks"
    and "rename_walk (concat (map (\<lambda>e. rev (walk_from [fst e] (snd e))) ks)) (Dir s es, k) = (None, t', k')"
  shows "\<exists>es'. t' = Dir s es' \<and> map fst es' = map fst es \<and> (\<forall>e \<in> set es'. no_spaces (snd e))"
  using assms
proof (induction ks arbitrary: es k)
  case Nil
  then show ?case by auto
next
  case (Cons e ks)
  obtain n ch where e: "e = (n, ch)" by (cases e)
  have mem: "(n, ch) \<in> set es" using Cons.prems(3) e by simp
  then have look: "map_of es n = Some ch"
    using Cons.prems(2) by simp
  then have l: "lookup (Dir s es) [n] = Some ch" by simp
  have w: "rev (walk_from [n] ch) = map (\<lambda>(r, ds, fs). ([n] @ r, ds, fs)) (rev (walk_from [] ch))"
    using walk_from_prefix [of "[n]" "[]" ch] by (simp add: rev_map)
  obtain r1 c1 k1 where sub: "rename_walk (rev (walk_from [] ch)) (ch, k) = (r1, c1, k1)"
    by (metis prod_cases3)
  have first: "rename_walk (rev (walk_from [n] ch)) (Dir s es, k) = (r1, Dir s (upd n c1 es), k1)"
    unfolding w using rename_walk_prefix [OF l, of "rev (walk_from [] ch)" k] sub look
    by (simp add: plug_Cons)
  have run: "rename_walk (rev (walk_from [n] ch) @ concat (map (\<lambda>e. rev (walk_from [fst e] (snd e))) ks))
               (Dir s es, k) = (None, t', k')"
    using Cons.prems(6) e by simp
  then have r1: "r1 = None"
    and rest: "rename_walk (concat (map (\<lambda>e. rev (walk_from [fst e] (snd e))) ks))
                 (Dir s (upd n c1 es), k1) = (None, t', k')"
    unfolding rename_walk_append first by (auto split: option.splits)
  have clean1: "no_spaces c1"
    using Cons.prems(1) e sub r1 by auto
  have others: "\<And>e'. e' \<in> set ks \<Longrightarrow> fst e' \<noteq> n"
  proof
    fix e' assume e': "e' \<in> set ks" and "fst e' = n"
    moreover from e' Cons.prems(3) have "e' \<in> set es" by auto
    ultimately have "e' = (n, ch)"
      using mem Cons.prems(2) by (metis eq_key_imp_eq_value prod.collapse)
    with e' Cons.prems(4) e show False by simp
  qed
  have "\<exists>es'. t' = Dir s es' \<and> map fst es' = map fst (upd n c1 es) \<and> (\<forall>e \<in> set es'. no_spaces (snd e))"
  proof (rule Cons.IH [OF _ _ _ _ _ rest])
    show "\<forall>e \<in> set ks. \<forall>k c' k'. rename_walk (rev (walk_from [] (snd e))) (snd e, k) = (None, c', k')
              \<longrightarrow> no_spaces c'"
      using Cons.prems(1) by simp
    show "distinct (map fst (upd n c1 es))" using Cons.prems(2) by simp
    show "set ks \<subseteq> set (upd n c1 es)"
      using Cons.prems(3) others by (auto intro: set_upd_other)
    show "distinct ks" using Cons.prems(4) by simp
    show "\<forall>e \<in> set (upd n c1 es). no_spaces (snd e) \<or> e \<in> set ks"
    proof
      fix e' assume "e' \<in> set (upd n c1 es)"
      then have "e' = (n, c1) \<or> (e' \<in> set es \<and> fst e' \<noteq> n)"
        using Cons.prems(2) by (rule set_upd [rotated])
      then show "no_spaces (snd e') \<or> e' \<in> set ks"
        using clean1 Cons.prems(5) e by auto
    qed
  qed
  then show ?case by simp
qed

lemma rename_walk_no_spaces:
  "wf_node c \<Longrightarrow> rename_walk (rev (walk_from [] c)) (c, k) = (None, c', k') \<Longrightarrow> no_spaces c'"
proof (induction c arbitrary: k c' k')
  case (File s)
  then show ?case by auto
next
  case (Dir s es)
  let ?kids = "filter (\<lambda>e. is_dir (snd e)) es"
  let ?dirs = "map fst ?kids"
  let ?files = "map fst (filter (\<lambda>e. \<not> is_dir (snd e)) es)"
  let ?sub = "concat (map (\<lambda>e. rev (walk_from [fst e] (snd e))) (rev ?kids))"
  have w: "rev (walk_from [] (Dir s es)) = ?sub @ [([], ?dirs, ?files)]"
    by (simp add: rev_concat rev_map comp_def)
  obtain r1 t1 k1 where kids: "rename_walk ?sub (Dir s es, k) = (r1, t1, k1)"
    by (rule prod_cases3)
  from Dir.prems(2) have r1: "r1 = None"
    and top: "rename_walk [([], ?dirs, ?files)] (t1, k1) = (None, c', k')"
    unfolding w rename_walk_append kids by (auto split: option.splits)
  have ih: "\<forall>e \<in> set (rev ?kids). \<forall>k c' k'.
      rename_walk (rev (walk_from [] (snd e))) (snd e, k) = (None, c', k') \<longrightarrow> no_spaces c'"
  proof (intro ballI allI impI)
    fix e k c' k'
    assume e: "e \<in> set (rev ?kids)"
      and run: "rename_walk (rev (walk_from [] (snd e))) (snd e, k) = (None, c', k')"
    then have "e \<in> set es" by simp
    moreover have "snd e \<in> Basic_BNFs.snds e" by (cases e) simp
    moreover have "wf_node (snd e)" using Dir.prems(1) \<open>e \<in> set es\<close> by simp
    ultimately show "no_spaces c'" using Dir.IH run by blast
  qed
  have dist: "distinct (map fst es)" using Dir.prems(1) by simp
  then have dist_es: "distinct es" by (rule distinct_map [THEN iffD1, THEN conjunct1])
  have pending: "\<forall>e \<in> set es. no_spaces (snd e) \<or> e \<in> set (rev ?kids)"
  proof
    fix e assume "e \<in> set es"
    then show "no_spaces (snd e) \<or> e \<in> set (rev ?kids)"
      by (cases "snd e") auto
  qed
  obtain es1 where t1: "t1 = Dir s es1" and names1: "map fst es1 = map fst es"
    and clean1: "\<forall>e \<in> set es1. no_spaces (snd e)"
    using rename_children [OF ih dist _ _ pending kids [unfolded r1]] dist_es by auto
  obtain r2 t2 k2 where files: "rename_each [] ?files (Dir s es1, k1) = (r2, t2, k2)"
    by (rule prod_cases3)
  from top have r2: "r2 = None" and dirs: "rename_each [] ?dirs (t2, k2) = (None, c', k')"
    unfolding t1 using files by (auto split: option.splits prod.splits)
  from rename_each_entries [OF files [unfolded r2]] obtain es2 where t2: "t2 = Dir s es2"
    and es2: "\<forall>e \<in> set es2. snd e \<in> snd ` set es1
        \<and> (CHR '' '' \<in> set (fst e) \<longrightarrow> e \<in> set es1 \<and> fst e \<notin> set ?files)"
    by blast
  from rename_each_entries [OF dirs [unfolded t2]] obtain es3 where c': "c' = Dir s es3"
    and es3: "\<forall>e \<in> set es3. snd e \<in> snd ` set es2
        \<and> (CHR '' '' \<in> set (fst e) \<longrightarrow> e \<in> set es2 \<and> fst e \<notin> set ?dirs)"
    by blast
  have all_names: "set (map fst es) = set ?dirs \<union> set ?files"
    by auto
  have nodes2: "\<And>e. e \<in> set es2 \<Longrightarrow> snd e \<in> snd ` set es1"
    using es2 by blast
  have nodes3: "\<And>e. e \<in> set es3 \<Longrightarrow> snd e \<in> snd ` set es2"
    using es3 by blast
  have sp2: "\<And>e. e \<in> set es2 \<Longrightarrow> CHR '' '' \<in> set (fst e) \<Longrightarrow> e \<in> set es1 \<and> fst e \<notin> set ?files"
    using es2 by blast
  have sp3: "\<And>e. e \<in> set es3 \<Longrightarrow> CHR '' '' \<in> set (fst e) \<Longrightarrow> e \<in> set es2 \<and> fst e \<notin> set ?dirs"
    using es3 by blast
  have "\<forall>e \<in> set es3. CHR '' '' \<notin> set (fst e) \<and> no_spaces (snd e)"
  proof
    fix e assume e: "e \<in> set es3"
    from nodes3 [OF e] obtain e2 where e2: "e2 \<in> set es2" "snd e = snd e2"
      by (rule imageE)
    from nodes2 [OF e2(1)] obtain e1 where e1: "e1 \<in> set es1" "snd e2 = snd e1"
      by (rule imageE)
    have inside: "no_spaces (snd e)"
      using clean1 e1 e2(2) by simp
    have "CHR '' '' \<notin> set (fst e)"
    proof
      assume sp: "CHR '' '' \<in> set (fst e)"
      from sp3 [OF e sp] have in2: "e \<in> set es2" and nd: "fst e \<notin> set ?dirs" by simp_all
      from sp2 [OF in2 sp] have in1: "e \<in> set es1" and nf: "fst e \<notin> set ?files" by simp_all
      from in1 have "fst e \<in> set (map fst es1)" by simp
      then have "fst e \<in> set (map fst es)" by (simp only: names1)
      then have "fst e \<in> set ?dirs \<union> set ?files" by (simp only: all_names)
      with nd nf show False by blast
    qed
    with inside show "CHR '' '' \<notin> set (fst e) \<and> no_spaces (snd e)" by simp
  qed
  with c' show ?case by (simp add: no_spaces_Dir)
qed

lemma rename_each_clean:
  "\<forall>n \<in> set names. CHR '' '' \<notin> set n \<Longrightarrow> rename_each root names st = (None, st)"
  by (cases st, induction names) simp_all

lemma rename_walk_clean:
  "\<forall>triple \<in> set w. \<forall>n \<in> set (fst (snd triple)) \<union> set (snd (snd triple)). CHR '' '' \<notin> set n \<Longrightarrow>
   rename_walk w st = (None, st)"
proof (induction w)
  case Nil
  show ?case by simp
next
  case (Cons triple w)
  obtain q ds fs where triple: "triple = (q, ds, fs)" by (cases triple)
  have "rename_each q fs st = (None, st)" "rename_each q ds st = (None, st)"
    using Cons.prems triple by (simp_all add: rename_each_clean)
  with Cons triple show ?case by simp
qed

lemma walk_from_names:
  "triple \<in> set (walk_from q c) \<Longrightarrow>
   set (fst (snd triple)) \<union> set (snd (snd triple)) \<subseteq> set (names_under c)"
proof (induction q c arbitrary: triple rule: walk_from.induct)
  case (1 root s)
  then show ?case by simp
next
  case (2 root s es)
  from "2.prems" consider
      "triple = (root, map fst (filter (\<lambda>e. is_dir (snd e)) es), map fst (filter (\<lambda>e. \<not> is_dir (snd e)) es))"
    | e where "e \<in> set es" "is_dir (snd e)" "triple \<in> set (walk_from (root @ [fst e]) (snd e))"
    by auto
  then show ?case
  proof cases
    case 1
    then show ?thesis by auto
  next
    case (2 e)
    then have "set (fst (snd triple)) \<union> set (snd (snd triple)) \<subseteq> set (names_under (snd e))"
      using "2.IH" [of e triple] by simp
    with 2(1) show ?thesis by auto
  qed
qed

lemma rename_walk_clean_tree:
  assumes "no_spaces c"
  shows "rename_walk (rev (walk_from [] c)) (c, k) = (None, c, k)"
proof (rule rename_walk_clean, intro ballI)
  fix triple n
  assume "triple \<in> set (rev (walk_from [] c))"
    and n: "n \<in> set (fst (snd triple)) \<union> set (snd (snd triple))"
  then have "triple \<in> set (walk_from [] c)" by simp
  from walk_from_names [OF this] n have "n \<in> set (names_under c)" by blast
  with assms show "CHR '' '' \<notin> set n" by (simp add: no_spaces_def)
qed

lemma replace_spaces_in_names_complete:
  assumes "lookup t p = Some c" and "wf_node c"
    and "replace_spaces_in_names p t = (None, t', lg)"
  shows "\<exists>c'. lookup t' p = Some c' \<and> no_spaces c' \<and> replace_spaces_in_names p t' = (None, t', [])"
proof -
  obtain r c' k where run: "rename_walk (rev (walk_from [] c)) (c, 0) = (r, c', k)"
    by (rule prod_cases3)
  from assms(3) have r: "r = None" and t': "t' = plug t p c'"
    unfolding replace_spaces_in_names_found [OF assms(1)] run by (auto split: option.splits)
  have l': "lookup t' p = Some c'"
    unfolding t' using assms(1) by (rule lookup_plug)
  have clean: "no_spaces c'"
    using assms(2) run [unfolded r] by (rule rename_walk_no_spaces)
  have "replace_spaces_in_names p t' = (None, plug t' p c', [])"
    unfolding replace_spaces_in_names_found [OF l'] rename_walk_clean_tree [OF clean] by simp
  also have "plug t' p c' = t'" using l' by (rule plug_same)
  finally show ?thesis using l' clean by blast
qed

lemma replace_spaces_id: "CHR '' '' \<notin> set f \<Longrightarrow> replace_spaces f = f"
  by (induction f) (auto simp: replace_spaces_def)

lemma replace_spaces_idem: "replace_spaces (replace_spaces f) = replace_spaces f"
  by (rule replace_spaces_id) (rule replace_spaces_no_space)

lemma distinct_normalized_names:
  "distinct (map (\<lambda>e. replace_spaces (fst e)) es) \<Longrightarrow> distinct (map fst es)"
  by (induction es) (auto simp: rev_image_eqI)

lemma collision_free_wf: "collision_free c \<Longrightarrow> wf_node c"
proof (induction c)
  case (File s)
  show ?case by simp
next
  case (Dir s es)
  have "\<And>e. e \<in> set es \<Longrightarrow> wf_node (snd e)"
  proof -
    fix e assume e: "e \<in> set es"
    moreover have "snd e \<in> Basic_BNFs.snds e" by (cases e) simp
    moreover have "collision_free (snd e)" using Dir.prems e by simp
    ultimately show "wf_node (snd e)" using Dir.IH by blast
  qed
  with Dir.prems show ?case by (simp add: distinct_normalized_names)
qed

lemma rename_key_normalized:
  "map (\<lambda>e. replace_spaces (fst e)) (rename_key f (replace_spaces f) es)
     = map (\<lambda>e. replace_spaces (fst e)) es"
  by (induction es) (auto simp: rename_key_def replace_spaces_idem)

lemma rename_key_other: "g \<in> fst ` set es \<Longrightarrow> g \<noteq> f \<Longrightarrow> g \<in> fst ` set (rename_key f new es)"
  by (force simp: rename_key_def)

lemma no_collision:
  assumes "distinct (map (\<lambda>e. replace_spaces (fst e)) es)" and "f \<in> fst ` set es"
    and "CHR '' '' \<in> set f"
  shows "map_of es (replace_spaces f) = None"
proof (rule ccontr)
  assume "map_of es (replace_spaces f) \<noteq> None"
  then obtain c where "(replace_spaces f, c) \<in> set es"
    by (auto dest: map_of_SomeD)
  moreover obtain d where "(f, d) \<in> set es" using assms(2) by auto
  moreover have "f \<noteq> replace_spaces f"
    using assms(3) replace_spaces_no_space [of f] by auto
  moreover have "replace_spaces (fst (replace_spaces f, c)) = replace_spaces (fst (f, d))"
    by (simp add: replace_spaces_idem)
  ultimately show False
    using assms(1) by (metis (mono_tags, lifting) distinct_map fst_conv inj_onD)
qed

lemma rename_each_ok:
  assumes "distinct (map (\<lambda>e. replace_spaces (fst e)) es)" and "distinct names"
    and "\<forall>f \<in> set names. f \<in> fst ` set es"
    and "\<forall>f \<in> set names. length (replace_spaces f) \<le> NAME_MAX"
  shows "\<exists>es' k'. rename_each [] names (Dir s es, k) = (None, Dir s es', k')
           \<and> map (\<lambda>e. replace_spaces (fst e)) es' = map (\<lambda>e. replace_spaces (fst e)) es
           \<and> (\<forall>g \<in> fst ` set es. g \<notin> set names \<longrightarrow> g \<in> fst ` set es')"
  using assms
proof (induction names arbitrary: es k)
  case Nil
  show ?case by simp
next
  case (Cons f names)
  show ?case
  proof (cases "CHR '' '' \<in> set f")
    case False
    obtain es' k' where "rename_each [] names (Dir s es, k) = (None, Dir s es', k')"
        "map (\<lambda>e. replace_spaces (fst e)) es' = map (\<lambda>e. replace_spaces (fst e)) es"
        "\<forall>g \<in> fst ` set es. g \<notin> set names \<longrightarrow> g \<in> fst ` set es'"
      using Cons.IH [of es k] Cons.prems by auto
    with False show ?thesis by auto
  next
    case True
    have fin: "f \<in> fst ` set es" using Cons.prems(3) by simp
    then obtain c where src: "map_of es f = Some c"
      by (metis map_of_eq_None_iff not_Some_eq)
    have dst: "map_of es (replace_spaces f) = None"
      using Cons.prems(1) fin True by (rule no_collision)
    have neq: "f \<noteq> replace_spaces f"
      using True replace_spaces_no_space [of f] by auto
    let ?es1 = "rename_key f (replace_spaces f) es"
    have fit: "\<not> NAME_MAX < length (replace_spaces f)"
      using Cons.prems(4) by (simp add: not_less)
    have one: "os_rename [] f (replace_spaces f) (Dir s es) = (None, Dir s ?es1)"
      using src dst neq fit by (simp add: os_rename_def)
    have n1: "map (\<lambda>e. replace_spaces (fst e)) ?es1 = map (\<lambda>e. replace_spaces (fst e)) es"
      by (rule rename_key_normalized)
    have d1: "distinct (map (\<lambda>e. replace_spaces (fst e)) ?es1)"
      using Cons.prems(1) n1 by simp
    have in1: "\<forall>f' \<in> set names. f' \<in> fst ` set ?es1"
    proof
      fix f' assume f': "f' \<in> set names"
      then have "f' \<in> fst ` set es" "f' \<noteq> f" using Cons.prems(2,3) by auto
      then show "f' \<in> fst ` set ?es1" by (rule rename_key_other)
    qed
    obtain es' k' where rest: "rename_each [] names (Dir s ?es1, k + 1) = (None, Dir s es', k')"
        and n': "map (\<lambda>e. replace_spaces (fst e)) es' = map (\<lambda>e. replace_spaces (fst e)) ?es1"
        and keep: "\<forall>g \<in> fst ` set ?es1. g \<notin> set names \<longrightarrow> g \<in> fst ` set es'"
      using Cons.IH [OF d1 _ in1, of "k + 1"] Cons.prems(2,4) by auto
    have "\<forall>g \<in> fst ` set es. g \<notin> set (f # names) \<longrightarrow> g \<in> fst ` set es'"
    proof (intro ballI impI)
      fix g assume "g \<in> fst ` set es" "g \<notin> set (f # names)"
      then have "g \<in> fst ` set ?es1" "g \<notin> set names" by (auto intro: rename_key_other)
      with keep show "g \<in> fst ` set es'" by blast
    qed
    with True one rest n' n1 show ?thesis by simp
  qed
qed

lemma rename_children_ok:
  assumes "\<forall>e \<in> set ks. \<forall>k. \<exists>c' k'. rename_walk (rev (walk_from [] (snd e))) (snd e, k) = (None, c', k')"
    and "distinct (map fst es)" and "set ks \<subseteq> set es" and "distinct ks"
  shows "\<exists>es' k'. rename_walk (concat (map (\<lambda>e. rev (walk_from [fst e] (snd e))) ks)) (Dir s es, k)
                    = (None, Dir s es', k')
           \<and> map fst es' = map fst es"
  using assms
proof (induction ks arbitrary: es k)
  case Nil
  show ?case by simp
next
  case (Cons e ks)
  obtain n ch where e: "e = (n, ch)" by (cases e)
  have mem: "(n, ch) \<in> set es" using Cons.prems(3) e by simp
  then have look: "map_of es n = Some ch"
    using Cons.prems(2) by simp
  then have l: "lookup (Dir s es) [n] = Some ch" by simp
  have w: "rev (walk_from [n] ch) = map (\<lambda>(r, ds, fs). ([n] @ r, ds, fs)) (rev (walk_from [] ch))"
    using walk_from_prefix [of "[n]" "[]" ch] by (simp add: rev_map)
  obtain c1 k1 where sub: "rename_walk (rev (walk_from [] ch)) (ch, k) = (None, c1, k1)"
    using Cons.prems(1) e by fastforce
  have first: "rename_walk (rev (walk_from [n] ch)) (Dir s es, k) = (None, Dir s (upd n c1 es), k1)"
    unfolding w using rename_walk_prefix [OF l, of "rev (walk_from [] ch)" k] sub look
    by (simp add: plug_Cons)
  have others: "\<And>e'. e' \<in> set ks \<Longrightarrow> fst e' \<noteq> n"
  proof
    fix e' assume e': "e' \<in> set ks" and "fst e' = n"
    moreover from e' Cons.prems(3) have "e' \<in> set es" by auto
    ultimately have "e' = (n, ch)"
      using mem Cons.prems(2) by (metis eq_key_imp_eq_value prod.collapse)
    with e' Cons.prems(4) e show False by simp
  qed
  have "\<exists>es' k'. rename_walk (concat (map (\<lambda>e. rev (walk_from [fst e] (snd e))) ks)) (Dir s (upd n c1 es), k1)
                    = (None, Dir s es', k')
           \<and> map fst es' = map fst (upd n c1 es)"
  proof (rule Cons.IH)
    show "\<forall>e \<in> set ks. \<forall>k. \<exists>c' k'. rename_walk (rev (walk_from [] (snd e))) (snd e, k) = (None, c', k')"
      using Cons.prems(1) by simp
    show "distinct (map fst (upd n c1 es))" using Cons.prems(2) by simp
    show "set ks \<subseteq> set (upd n c1 es)"
      using Cons.prems(3) others by (auto intro: set_upd_other)
    show "distinct ks" using Cons.prems(4) by simp
  qed
  then obtain es' k' where rest:
      "rename_walk (concat (map (\<lambda>e. rev (walk_from [fst e] (snd e))) ks)) (Dir s (upd n c1 es), k1)
         = (None, Dir s es', k')"
    and names: "map fst es' = map fst es"
    by auto
  have "rename_walk (concat (map (\<lambda>e. rev (walk_from [fst e] (snd e))) (e # ks))) (Dir s es, k)
      = (None, Dir s es', k')"
    unfolding e using first rest by (simp add: rename_walk_append)
  with names show ?case by blast
qed

lemma names_fit_Dir:
  "names_fit (Dir s es) \<longleftrightarrow>
     (\<forall>e \<in> set es. length (replace_spaces (fst e)) \<le> NAME_MAX \<and> names_fit (snd e))"
  by (auto simp: names_fit_def)

lemma rename_walk_ok:
  "collision_free c \<Longrightarrow> names_fit c \<Longrightarrow>
   \<exists>c' k'. rename_walk (rev (walk_from [] c)) (c, k) = (None, c', k')"
proof (induction c arbitrary: k)
  case (File s)
  show ?case by simp
next
  case (Dir s es)
  let ?kids = "filter (\<lambda>e. is_dir (snd e)) es"
  let ?dirs = "map fst ?kids"
  let ?files = "map fst (filter (\<lambda>e. \<not> is_dir (snd e)) es)"
  let ?sub = "concat (map (\<lambda>e. rev (walk_from [fst e] (snd e))) (rev ?kids))"
  have w: "rev (walk_from [] (Dir s es)) = ?sub @ [([], ?dirs, ?files)]"
    by (simp add: rev_concat rev_map comp_def)
  have norm: "distinct (map (\<lambda>e. replace_spaces (fst e)) es)" using Dir.prems(1) by simp
  then have dist: "distinct (map fst es)" by (rule distinct_normalized_names)
  then have dist_es: "distinct es" by (rule distinct_map [THEN iffD1, THEN conjunct1])
  have ih: "\<forall>e \<in> set (rev ?kids). \<forall>k. \<exists>c' k'.
      rename_walk (rev (walk_from [] (snd e))) (snd e, k) = (None, c', k')"
  proof (intro ballI allI)
    fix e k
    assume e: "e \<in> set (rev ?kids)"
    then have "e \<in> set es" by simp
    moreover have "snd e \<in> Basic_BNFs.snds e" by (cases e) simp
    moreover have "collision_free (snd e)" using Dir.prems(1) \<open>e \<in> set es\<close> by simp
    moreover have "names_fit (snd e)" using Dir.prems(2) \<open>e \<in> set es\<close> by (simp add: names_fit_Dir)
    ultimately show "\<exists>c' k'. rename_walk (rev (walk_from [] (snd e))) (snd e, k) = (None, c', k')"
      using Dir.IH by blast
  qed
  have fit: "\<forall>f \<in> fst ` set es. length (replace_spaces f) \<le> NAME_MAX"
    using Dir.prems(2) by (auto simp: names_fit_Dir)
  obtain es1 k1 where kids: "rename_walk ?sub (Dir s es, k) = (None, Dir s es1, k1)"
    and names1: "map fst es1 = map fst es"
    using rename_children_ok [OF ih dist, of s k] dist_es by auto
  have norm1: "distinct (map (\<lambda>e. replace_spaces (fst e)) es1)"
  proof -
    have "map (\<lambda>e. replace_spaces (fst e)) es1 = map replace_spaces (map fst es1)" by (simp add: comp_def)
    also have "\<dots> = map (\<lambda>e. replace_spaces (fst e)) es" by (simp add: names1 comp_def)
    finally show ?thesis using norm by simp
  qed
  have set1: "fst ` set es1 = fst ` set es"
    using names1 by (metis set_map)
  have dfiles: "distinct ?files" using dist by (simp add: distinct_map_filter)
  have ddirs: "distinct ?dirs" using dist by (simp add: distinct_map_filter)
  have disjoint: "\<And>g. g \<in> set ?dirs \<Longrightarrow> g \<notin> set ?files"
  proof
    fix g assume "g \<in> set ?dirs" "g \<in> set ?files"
    then obtain c d where "(g, c) \<in> set es" "is_dir c" "(g, d) \<in> set es" "\<not> is_dir d" by auto
    with dist show False by (metis eq_key_imp_eq_value)
  qed
  obtain es2 k2 where files: "rename_each [] ?files (Dir s es1, k1) = (None, Dir s es2, k2)"
    and norm2: "map (\<lambda>e. replace_spaces (fst e)) es2 = map (\<lambda>e. replace_spaces (fst e)) es1"
    and keep2: "\<forall>g \<in> fst ` set es1. g \<notin> set ?files \<longrightarrow> g \<in> fst ` set es2"
    using rename_each_ok [OF norm1 dfiles, of s k1] set1 fit by auto
  have in2: "\<forall>f \<in> set ?dirs. f \<in> fst ` set es2"
  proof
    fix f assume f: "f \<in> set ?dirs"
    then have "f \<in> fst ` set es1" unfolding set1 by auto
    with keep2 disjoint [OF f] show "f \<in> fst ` set es2" by blast
  qed
  obtain es3 k3 where dirs: "rename_each [] ?dirs (Dir s es2, k2) = (None, Dir s es3, k3)"
    using rename_each_ok [OF _ ddirs in2, of s k2] norm1 norm2 fit by auto
  have "rename_walk (rev (walk_from [] (Dir s es))) (Dir s es, k) = (None, Dir s es3, k3)"
    unfolding w rename_walk_append kids using files dirs by simp
  then show ?case by blast
qed

lemma replace_spaces_in_names_ok:
  assumes "lookup t p = Some c" and "collision_free c" and "names_fit c"
  shows "fst (replace_spaces_in_names p t) = None"
proof -
  obtain c' k' where "rename_walk (rev (walk_from [] c)) (c, 0) = (None, c', k')"
    using rename_walk_ok [OF assms(2,3)] by blast
  then show ?thesis
    unfolding replace_spaces_in_names_found [OF assms(1)] by simp
qed

subsection \<open>Which errors the normalizer raises, and what it keeps\<close>

lemma at_path_os_error:
  assumes "\<And>n e. fst (f n) = Some e \<Longrightarrow> os_error e"
  shows "fst (at_path p f t) = Some e \<Longrightarrow> os_error e"
proof (induction p arbitrary: t)
  case Nil
  then show ?case using assms by simp
next
  case (Cons x p)
  show ?case
  proof (cases t)
    case (File s)
    with Cons.prems show ?thesis by (simp add: os_error_def)
  next
    case (Dir s es)
    show ?thesis
    proof (cases "map_of es x")
      case None
      with Dir Cons.prems show ?thesis by (auto simp: os_error_def lookup_error_def split: if_splits)
    next
      case (Some c)
      obtain r c' where sub: "at_path p f c = (r, c')" by (cases "at_path p f c")
      with Dir Some Cons.prems have "fst (at_path p f c) = Some e" by simp
      then show ?thesis by (rule Cons.IH)
    qed
  qed
qed

lemma at_path_missing: "lookup t p = None \<Longrightarrow> fst (at_path p f t) \<noteq> None"
proof (induction p arbitrary: t)
  case Nil
  then show ?case by simp
next
  case (Cons x p)
  show ?case
  proof (cases t)
    case (File s)
    then show ?thesis by simp
  next
    case (Dir s es)
    show ?thesis
    proof (cases "map_of es x")
      case None
      with Dir show ?thesis by simp
    next
      case (Some c)
      obtain r c' where sub: "at_path p f c = (r, c')" by (cases "at_path p f c")
      from Dir Some Cons.prems have "lookup c p = None" by simp
      then have "fst (at_path p f c) \<noteq> None" by (rule Cons.IH)
      with Dir Some sub show ?thesis by simp
    qed
  qed
qed

lemma os_chmod_os_error:
  assumes "fst (os_chmod p mode t) = Some e"
  shows "os_error e"
proof (rule at_path_os_error [where f = "\<lambda>n. (None, set_mode mode n)"])
  show "fst (at_path p (\<lambda>n. (None, set_mode mode n)) t) = Some e"
    using assms by (simp add: os_chmod_def)
qed simp

lemma chmod_each_os_error: "fst (chmod_each root ds mode t) = Some e \<Longrightarrow> os_error e"
proof (induction ds arbitrary: t)
  case Nil
  then show ?case by simp
next
  case (Cons d ds)
  obtain r1 t1 where one: "os_chmod (root @ [d]) mode t = (r1, t1)"
    by (cases "os_chmod (root @ [d]) mode t")
  show ?case
  proof (cases r1)
    case None
    with one Cons show ?thesis by simp
  next
    case (Some e1)
    with one Cons.prems have "e = e1" by simp
    with os_chmod_os_error [of "root @ [d]" mode t e1] one Some show ?thesis by simp
  qed
qed

lemma chmod_walk_os_error: "fst (chmod_walk w mode t) = Some e \<Longrightarrow> os_error e"
proof (induction w arbitrary: t)
  case Nil
  then show ?case by simp
next
  case (Cons triple w)
  obtain q ds fs where triple: "triple = (q, ds, fs)" by (cases triple)
  obtain r1 t1 where one: "chmod_each q ds mode t = (r1, t1)" by (cases "chmod_each q ds mode t")
  obtain r2 t2 where two: "chmod_each q fs mode t1 = (r2, t2)" by (cases "chmod_each q fs mode t1")
  show ?case
  proof (cases r1)
    case (Some e1)
    with one triple Cons.prems chmod_each_os_error [of q ds mode t e1] show ?thesis by simp
  next
    case None
    show ?thesis
    proof (cases r2)
      case (Some e2)
      with None one two triple Cons.prems chmod_each_os_error [of q fs mode t1 e2] show ?thesis by simp
    next
      case None2: None
      with None one two triple Cons.prems have "fst (chmod_walk w mode t2) = Some e" by simp
      then show ?thesis by (rule Cons.IH)
    qed
  qed
qed

lemma rchmod_os_error: "fst (rchmod p mode t) = Some e \<Longrightarrow> os_error e"
proof -
  assume h: "fst (rchmod p mode t) = Some e"
  obtain r1 t1 where one: "os_chmod p mode t = (r1, t1)" by (cases "os_chmod p mode t")
  show ?thesis
  proof (cases r1)
    case (Some e1)
    with one h os_chmod_os_error [of p mode t e1] show ?thesis by (simp add: rchmod_def)
  next
    case None
    with one h have "fst (chmod_walk (os_walk p t1) mode t1) = Some e" by (simp add: rchmod_def)
    then show ?thesis by (rule chmod_walk_os_error)
  qed
qed

lemma rename_entry_os_error: "fst (rename_entry old new n) = Some e \<Longrightarrow> os_error e"
  by (cases n) (auto simp: os_error_def lookup_error_def split: option.splits if_splits)

lemma os_rename_os_error:
  assumes "fst (os_rename root old new t) = Some e"
  shows "os_error e"
proof (rule at_path_os_error [where f = "rename_entry old new"])
  show "fst (at_path root (rename_entry old new) t) = Some e"
    using assms by (simp add: os_rename_def)
qed (rule rename_entry_os_error)

lemma rename_each_os_error: "fst (rename_each root names st) = Some e \<Longrightarrow> os_error e"
proof (induction names arbitrary: st)
  case Nil
  then show ?case by (cases st) simp
next
  case (Cons f names)
  obtain t k where st: "st = (t, k)" by (cases st)
  show ?case
  proof (cases "CHR '' '' \<in> set f")
    case False
    with Cons st show ?thesis by simp
  next
    case True
    obtain r1 t1 where one: "os_rename root f (replace_spaces f) t = (r1, t1)"
      by (cases "os_rename root f (replace_spaces f) t")
    show ?thesis
    proof (cases r1)
      case None
      with True one st Cons show ?thesis by simp
    next
      case (Some e1)
      with True one st Cons.prems have "e = e1" by simp
      with os_rename_os_error [of root f "replace_spaces f" t e1] one Some show ?thesis by simp
    qed
  qed
qed

lemma rename_walk_os_error: "fst (rename_walk w st) = Some e \<Longrightarrow> os_error e"
proof (induction w arbitrary: st)
  case Nil
  then show ?case by simp
next
  case (Cons triple w)
  obtain q ds fs where triple: "triple = (q, ds, fs)" by (cases triple)
  obtain r1 st1 where one: "rename_each q fs st = (r1, st1)" by (cases "rename_each q fs st")
  obtain r2 st2 where two: "rename_each q ds st1 = (r2, st2)" by (cases "rename_each q ds st1")
  show ?case
  proof (cases r1)
    case (Some e1)
    with one triple Cons.prems rename_each_os_error [of q fs st e1] show ?thesis by simp
  next
    case None
    show ?thesis
    proof (cases r2)
      case (Some e2)
      with None one two triple Cons.prems rename_each_os_error [of q ds st1 e2] show ?thesis by simp
    next
      case None2: None
      with None one two triple Cons.prems have "fst (rename_walk w st2) = Some e" by simp
      then show ?thesis by (rule Cons.IH)
    qed
  qed
qed

lemma replace_spaces_in_names_os_error:
  "fst (replace_spaces_in_names p t) = Some e \<Longrightarrow> os_error e"
proof -
  assume h: "fst (replace_spaces_in_names p t) = Some e"
  obtain r1 t1 k1 where run: "rename_walk (rev (os_walk p t)) (t, 0) = (r1, t1, k1)"
    by (rule prod_cases3)
  with h have "fst (rename_walk (rev (os_walk p t)) (t, 0)) = Some e"
    by (cases r1) (simp_all add: replace_spaces_in_names_def)
  then show ?thesis by (rule rename_walk_os_error)
qed

lemma erase_upd: "map (\<lambda>e. (fst e, erase (snd e))) (upd x c es) = upd x (erase c) (map (\<lambda>e. (fst e, erase (snd e))) es)"
  by (induction es) auto

lemma map_of_erase: "map_of (map (\<lambda>e. (fst e, erase (snd e))) es) x = map_option erase (map_of es x)"
  by (induction es) auto

lemma erase_at_path:
  assumes "\<And>n. erase (snd (f n)) = erase n"
  shows "erase (snd (at_path p f t)) = erase t"
proof (induction p arbitrary: t)
  case Nil
  show ?case using assms by simp
next
  case (Cons x p)
  show ?case
  proof (cases t)
    case (File s)
    then show ?thesis by simp
  next
    case (Dir s es)
    show ?thesis
    proof (cases "map_of es x")
      case None
      with Dir show ?thesis by simp
    next
      case (Some c)
      have "map_of (map (\<lambda>e. (fst e, erase (snd e))) es) x = Some (erase c)"
        using Some by (simp add: map_of_erase)
      then have "upd x (erase c) (map (\<lambda>e. (fst e, erase (snd e))) es) = map (\<lambda>e. (fst e, erase (snd e))) es"
        by (rule upd_same)
      moreover obtain r c' where sub: "at_path p f c = (r, c')" by (cases "at_path p f c")
      moreover from sub have "erase c' = erase c" using Cons.IH [of c] by simp
      ultimately show ?thesis using Dir Some
        by (simp add: erase_upd)
    qed
  qed
qed

lemma lookup_erase: "lookup (erase t) p = map_option erase (lookup t p)"
proof (induction p arbitrary: t)
  case Nil
  show ?case by simp
next
  case (Cons x p)
  show ?case
    by (cases t) (auto simp: map_of_erase Cons.IH split: option.splits)
qed

lemma erase_set_mode [simp]: "erase (set_mode mode n) = erase n"
  by (cases n) simp_all

lemma erase_os_chmod: "erase (snd (os_chmod p mode t)) = erase t"
  unfolding os_chmod_def by (rule erase_at_path [where f = "\<lambda>n. (None, set_mode mode n)"]) simp

lemma erase_chmod_each: "erase (snd (chmod_each root ds mode t)) = erase t"
proof (induction ds arbitrary: t)
  case Nil
  show ?case by simp
next
  case (Cons d ds)
  obtain r1 t1 where one: "os_chmod (root @ [d]) mode t = (r1, t1)"
    by (cases "os_chmod (root @ [d]) mode t")
  then have "erase t1 = erase t" using erase_os_chmod [of "root @ [d]" mode t] by simp
  with one Cons.IH [of t1] show ?case by (cases r1) simp_all
qed

lemma erase_chmod_walk: "erase (snd (chmod_walk w mode t)) = erase t"
proof (induction w arbitrary: t)
  case Nil
  show ?case by simp
next
  case (Cons triple w)
  obtain q ds fs where triple: "triple = (q, ds, fs)" by (cases triple)
  obtain r1 t1 where one: "chmod_each q ds mode t = (r1, t1)" by (cases "chmod_each q ds mode t")
  obtain r2 t2 where two: "chmod_each q fs mode t1 = (r2, t2)" by (cases "chmod_each q fs mode t1")
  have e1: "erase t1 = erase t" using erase_chmod_each [of q ds mode t] one by simp
  have e2: "erase t2 = erase t1" using erase_chmod_each [of q fs mode t1] two by simp
  show ?case
    using triple one two e1 e2 Cons.IH [of t2] by (cases r1; cases r2) simp_all
qed

lemma rchmod_found:
  assumes "rchmod p mode t = (None, t')"
  shows "\<exists>c. lookup t' p = Some c"
proof -
  obtain r1 t1 where one: "os_chmod p mode t = (r1, t1)" by (cases "os_chmod p mode t")
  with assms have r1: "r1 = None" and walk: "chmod_walk (os_walk p t1) mode t1 = (None, t')"
    by (auto simp: rchmod_def split: option.splits)
  have "lookup t p \<noteq> None"
    using at_path_missing [of t p "\<lambda>n. (None, set_mode mode n)"] one r1
    by (auto simp: os_chmod_def)
  moreover have "erase t' = erase t"
    using erase_chmod_walk [of "os_walk p t1" mode t1] walk erase_os_chmod [of p mode t] one by simp
  ultimately have "lookup (erase t') p \<noteq> None"
    by (simp add: lookup_erase)
  then show ?thesis by (simp add: lookup_erase)
qed

lemma replace_spaces_in_names_keeps_path:
  assumes "lookup t p = Some c" and "replace_spaces_in_names p t = (r, t', lg)"
  shows "\<exists>c'. lookup t' p = Some c'"
proof -
  obtain r1 c1 k1 where run: "rename_walk (rev (walk_from [] c)) (c, 0) = (r1, c1, k1)"
    by (rule prod_cases3)
  with assms(2) have "t' = plug t p c1"
    unfolding replace_spaces_in_names_found [OF assms(1)] by (cases r1) simp_all
  with lookup_plug [OF assms(1)] show ?thesis by blast
qed

lemma os_utime_found:
  assumes "lookup t p = Some c"
  shows "\<exists>t'. os_utime p (a, m) t = (None, t') \<and> lookup t' p = Some (set_times (a, m) c)"
  using assms by (simp add: os_utime_def at_path_lookup lookup_plug)

lemma set_times_stat:
  "st_atime (node_stat (set_times (a, m) n)) = a \<and> st_mtime (node_stat (set_times (a, m) n)) = m"
  by (cases n) simp_all

subsection \<open>The publisher and the driver\<close>

lemma publish_resource_removed:
  "removed_ids (snd (snd (publish_resource store iget resource_id catalog))) = []"
proof -
  have "\<And>c r t' lg. replace_spaces_in_names [resource_id] c = (r, t', lg) \<Longrightarrow> removed_ids lg = []"
    using replace_spaces_log by fastforce
  then show ?thesis
    by (auto simp: publish_resource_def Let_def split: sum.splits prod.splits option.splits)
qed

lemma sync_source_item_removed:
  "removed_ids (snd (snd (sync_source_item store iget (map fst dest) (map snd dest) item catalog))) = []"
proof -
  obtain source_id source_timestamp where item: "item = (source_id, source_timestamp)" by (cases item)
  show ?thesis
    unfolding item
    using publish_resource_removed [of store iget source_id catalog]
    by (auto simp: sync_source_item_cases split: prod.splits option.splits error.splits)
qed

lemma sync_publish_removed:
  "removed_ids (snd (snd (sync_publish store iget (map fst dest) (map snd dest) source catalog))) = []"
proof (induction source arbitrary: catalog)
  case Nil
  show ?case by simp
next
  case (Cons item source)
  obtain r1 c1 lg1 where one:
    "sync_source_item store iget (map fst dest) (map snd dest) item catalog = (r1, c1, lg1)"
    by (rule prod_cases3)
  have lg1: "removed_ids lg1 = []"
    using sync_source_item_removed [of store iget dest item catalog] one by simp
  obtain r2 c2 lg2 where rest:
    "sync_publish store iget (map fst dest) (map snd dest) source c1 = (r2, c2, lg2)"
    by (rule prod_cases3)
  have lg2: "removed_ids lg2 = []"
    using Cons.IH [of c1] rest by simp
  show ?case
    using one rest lg1 lg2 by (cases r1) simp_all
qed

lemma scan_source_removed: "removed_ids (snd (scan_source store)) = []"
proof -
  have "\<And>cs. removed_ids (map (\<lambda>c. (INFO, NetCDFObjects (coll_name c) (length (netcdf_objects c)))) cs) = []"
    by (induct_tac cs) simp_all
  then show ?thesis by (simp add: scan_source_def Let_def)
qed

lemma scan_destination_removed: "removed_ids (snd (scan_destination catalog)) = []"
  by (simp add: scan_destination_def Let_def)

lemma publish_resource_publication_error:
  assumes "fst (publish_resource store iget resource_id catalog) = Some (NetCDFPublicationError i rc out err)"
  shows "\<exists>timestamp. get_latest_resource_timestamp store resource_id = Inr timestamp
       \<and> iget resource_id catalog = ((rc, out, err), fst (snd (publish_resource store iget resource_id catalog)))
       \<and> rc \<noteq> 0 \<and> i = resource_id
       \<and> snd (snd (publish_resource store iget resource_id catalog))
           = [(INFO, Publishing resource_id), (ERROR, PublishFailed resource_id rc out err)]"
proof (cases "get_latest_resource_timestamp store resource_id")
  case (Inl e)
  then have "fst (publish_resource store iget resource_id catalog) = Some e"
    by (simp add: publish_resource_def)
  moreover from Inl have "e = ValueError \<or> e = CollectionDoesNotExist"
    by (auto simp: get_latest_resource_timestamp_def collections_get_def py_max_def Let_def
        split: option.splits list.splits sum.splits)
  ultimately show ?thesis using assms by auto
next
  case (Inr timestamp)
  obtain returncode so se catalog1 where ig: "iget resource_id catalog = ((returncode, so, se), catalog1)"
    by (cases "iget resource_id catalog") (metis prod_cases3)
  show ?thesis
  proof (cases "returncode = 0")
    case False
    with Inr ig assms show ?thesis by (simp add: publish_resource_def)
  next
    case True
    obtain r2 c2 where ch: "rchmod [resource_id] FILE_MODE catalog1 = (r2, c2)"
      by (cases "rchmod [resource_id] FILE_MODE catalog1")
    show ?thesis
    proof (cases r2)
      case (Some e)
      then have "os_error e" using rchmod_os_error [of "[resource_id]" FILE_MODE catalog1 e] ch by simp
      moreover have "fst (publish_resource store iget resource_id catalog) = Some e"
        using Inr ig True ch Some by (simp add: publish_resource_def)
      ultimately show ?thesis using assms by (auto simp: os_error_def)
    next
      case None
      obtain r3 c3 lg3 where rs: "replace_spaces_in_names [resource_id] c2 = (r3, c3, lg3)"
        by (rule prod_cases3)
      show ?thesis
      proof (cases r3)
        case (Some e)
        then have "os_error e"
          using replace_spaces_in_names_os_error [of "[resource_id]" c2 e] rs by simp
        moreover have "fst (publish_resource store iget resource_id catalog) = Some e"
          using Inr ig True ch None rs Some by (simp add: publish_resource_def)
        ultimately show ?thesis using assms by (auto simp: os_error_def)
      next
        case None3: None
        obtain c where "lookup c2 [resource_id] = Some c"
          using rchmod_found [of "[resource_id]" FILE_MODE catalog1 c2] ch None by auto
        then obtain c' where "lookup c3 [resource_id] = Some c'"
          using replace_spaces_in_names_keeps_path rs by blast
        then obtain c4 where "os_utime [resource_id] (timestamp, timestamp) c3 = (None, c4)"
          using os_utime_found by blast
        then have "fst (publish_resource store iget resource_id catalog) = None"
          using Inr ig True ch None rs None3 by (simp add: publish_resource_def)
        with assms show ?thesis by simp
      qed
    qed
  qed
qed

lemma sync_resources_removal_phase:
  assumes "scan_source store = (Inr source_netcdf, lg1)"
    and "sync_publish store iget (map fst (fst (scan_destination catalog)))
           (map snd (fst (scan_destination catalog))) source_netcdf catalog = (None, catalog1, lg3)"
  shows "sync_resources store iget catalog =
     (case sync_remove (map fst source_netcdf) (fst (scan_destination catalog1)) catalog1 of
        (Some e, catalog2, lg5) \<Rightarrow>
          (Some e, catalog2, (INFO, Syncing) # lg1 @ snd (scan_destination catalog) @ lg3
             @ snd (scan_destination catalog1) @ lg5)
      | (None, catalog2, lg5) \<Rightarrow>
          (None, catalog2, (INFO, Syncing) # lg1 @ snd (scan_destination catalog) @ lg3
             @ snd (scan_destination catalog1) @ lg5 @ [(INFO, Synced)]))"
proof -
  obtain d lg2 where sd: "scan_destination catalog = (d, lg2)"
    by (cases "scan_destination catalog")
  obtain d' lg4 where sd': "scan_destination catalog1 = (d', lg4)"
    by (cases "scan_destination catalog1")
  have pub: "sync_publish store iget (map fst d) (map snd d) source_netcdf catalog = (None, catalog1, lg3)"
    using assms(2) sd by simp
  show ?thesis
    by (simp add: sync_resources_def Let_def assms(1) sd sd' pub split: prod.splits option.splits)
qed

lemma sync_resources_removed_ids:
  assumes "scan_source store = (Inr source_netcdf, lg1)"
    and "sync_publish store iget (map fst (fst (scan_destination catalog)))
           (map snd (fst (scan_destination catalog))) source_netcdf catalog = (None, catalog1, lg3)"
    and "sync_remove (map fst source_netcdf) (fst (scan_destination catalog1)) catalog1 = (r, catalog2, lg5)"
  shows "fst (sync_resources store iget catalog) = r"
    and "fst (snd (sync_resources store iget catalog)) = catalog2"
    and "removed_ids (snd (snd (sync_resources store iget catalog))) = removed_ids lg5"
proof -
  have lg1: "removed_ids lg1 = []"
    using scan_source_removed [of store] assms(1) by simp
  have lg3: "removed_ids lg3 = []"
    using sync_publish_removed [of store iget "fst (scan_destination catalog)" source_netcdf catalog] assms(2)
    by simp
  note run = sync_resources_removal_phase [OF assms(1,2), unfolded assms(3)]
  show "fst (sync_resources store iget catalog) = r"
    unfolding run by (cases r) simp_all
  show "fst (snd (sync_resources store iget catalog)) = catalog2"
    unfolding run by (cases r) simp_all
  show "removed_ids (snd (snd (sync_resources store iget catalog))) = removed_ids lg5"
    unfolding run using lg1 lg3 by (cases r) (simp_all add: scan_destination_removed)
qed

subsection \<open>The publish loop, item by item\<close>

text \<open>
  Nothing but \<^verbatim>\<open>publish_resource\<close> logs \<open>Publishing\<close>. A publish loop that ends with an
  exception has handled the items before the failing one normally; the exception is the
  one \<^verbatim>\<open>publish_resource\<close> raised for that item, and it is no \<open>NetCDFPublicationError\<close>.
\<close>

lemma publishing_ids_simps2 [simp]:
  "publishing_ids ((l, IncludedSubcollections k) # lg) = publishing_ids lg"
  "publishing_ids ((l, PublicSubcollections k) # lg) = publishing_ids lg"
  "publishing_ids ((l, NetCDFObjects i k) # lg) = publishing_ids lg"
  "publishing_ids ((l, PublicNetCDF k) # lg) = publishing_ids lg"
  "publishing_ids ((l, DestinationResources k) # lg) = publishing_ids lg"
  "publishing_ids ((l, Removed i) # lg) = publishing_ids lg"
  "publishing_ids ((l, NoLongerInSource i) # lg) = publishing_ids lg"
  "publishing_ids ((l, Syncing) # lg) = publishing_ids lg"
  "publishing_ids ((l, Synced) # lg) = publishing_ids lg"
  by (simp_all add: publishing_ids_def)

lemma needs_publish_iff2:
  "needs_publish dest item \<longleftrightarrow>
     fst item \<notin> fst ` set dest \<or> (\<exists>dts. map_of dest (fst item) = Some dts \<and> dts < snd item)"
  by (cases item) (simp add: needs_publish_iff)

lemma scan_source_publishing: "publishing_ids (snd (scan_source store)) = []"
proof -
  have "\<And>cs. publishing_ids (map (\<lambda>c. (INFO, NetCDFObjects (coll_name c) (length (netcdf_objects c)))) cs) = []"
    by (induct_tac cs) simp_all
  then show ?thesis by (simp add: scan_source_def Let_def)
qed

lemma scan_destination_publishing: "publishing_ids (snd (scan_destination catalog)) = []"
  by (simp add: scan_destination_def Let_def)

lemma sync_remove_publishing:
  "publishing_ids (snd (snd (sync_remove source_ids dest catalog))) = []"
proof (induction dest arbitrary: catalog)
  case Nil
  show ?case by simp
next
  case (Cons item dest)
  obtain d ts where item: "item = (d, ts)" by (cases item)
  obtain r1 c1 lg1 where one: "sync_destination_item source_ids (d, ts) catalog = (r1, c1, lg1)"
    by (rule prod_cases3)
  have lg1: "publishing_ids lg1 = []"
    using sync_destination_item_cases [OF one] by auto
  obtain r2 c2 lg2 where rest: "sync_remove source_ids dest c1 = (r2, c2, lg2)"
    by (rule prod_cases3)
  have lg2: "publishing_ids lg2 = []"
    using Cons.IH [of c1] rest by simp
  show ?case
    using item one rest lg1 lg2 by (cases r1) simp_all
qed

lemma sync_publish_append:
  "sync_publish store iget ids tss (xs @ ys) catalog =
     (case sync_publish store iget ids tss xs catalog of
        (Some e, c, lg) \<Rightarrow> (Some e, c, lg)
      | (None, c, lg) \<Rightarrow>
          (case sync_publish store iget ids tss ys c of (r, c', lg') \<Rightarrow> (r, c', lg @ lg')))"
proof (induction xs arbitrary: catalog)
  case Nil
  show ?case by (simp split: prod.splits)
next
  case (Cons item xs)
  show ?case
    by (simp add: Cons.IH split: prod.splits option.splits)
qed

lemma sync_publish_split:
  "sync_publish store iget ids tss source catalog = (Some e, c, lg) \<Longrightarrow>
   \<exists>before item rest cb lgb lgi. source = before @ item # rest
      \<and> sync_publish store iget ids tss before catalog = (None, cb, lgb)
      \<and> sync_source_item store iget ids tss item cb = (Some e, c, lgi)
      \<and> lg = lgb @ lgi"
proof (induction source arbitrary: catalog lg)
  case Nil
  then show ?case by simp
next
  case (Cons item source)
  obtain r1 c1 lg1 where one: "sync_source_item store iget ids tss item catalog = (r1, c1, lg1)"
    by (rule prod_cases3)
  show ?case
  proof (cases r1)
    case (Some e1)
    with one Cons.prems have "e1 = e" "c1 = c" "lg1 = lg" by simp_all
    with one Some have "item # source = [] @ item # source
        \<and> sync_publish store iget ids tss [] catalog = (None, catalog, [])
        \<and> sync_source_item store iget ids tss item catalog = (Some e, c, lg)
        \<and> lg = [] @ lg" by simp
    then show ?thesis by blast
  next
    case None
    obtain r2 c2 lg2 where rest: "sync_publish store iget ids tss source c1 = (r2, c2, lg2)"
      by (rule prod_cases3)
    with None one Cons.prems have r2: "r2 = Some e" "c2 = c" and lg: "lg = lg1 @ lg2" by simp_all
    from Cons.IH [OF rest [unfolded r2]] obtain before item' rest' cb lgb lgi
      where split: "source = before @ item' # rest'"
        "sync_publish store iget ids tss before c1 = (None, cb, lgb)"
        "sync_source_item store iget ids tss item' cb = (Some e, c, lgi)"
        "lg2 = lgb @ lgi"
      by blast
    have "item # source = (item # before) @ item' # rest'
        \<and> sync_publish store iget ids tss (item # before) catalog = (None, cb, lg1 @ lgb)
        \<and> sync_source_item store iget ids tss item' cb = (Some e, c, lgi)
        \<and> lg = (lg1 @ lgb) @ lgi"
      using split one None lg by simp
    then show ?thesis by blast
  qed
qed

lemma publish_resource_no_warning:
  "(WARNING, SyncIncomplete) \<notin> set (snd (snd (publish_resource store iget resource_id catalog)))"
proof -
  have "\<And>c r t' lg. replace_spaces_in_names [resource_id] c = (r, t', lg) \<Longrightarrow> (WARNING, SyncIncomplete) \<notin> set lg"
    using replace_spaces_log by fastforce
  then show ?thesis
    by (auto simp: publish_resource_def Let_def split: sum.splits prod.splits option.splits)
qed

lemma sync_source_item_other_error:
  assumes "needs_publish dest (source_id, source_timestamp)"
    and "fst (publish_resource store iget source_id catalog) = Some e"
    and "\<forall>i rc out err. e \<noteq> NetCDFPublicationError i rc out err"
  shows "sync_source_item store iget (map fst dest) (map snd dest) (source_id, source_timestamp) catalog
     = (Some e, fst (snd (publish_resource store iget source_id catalog)),
        (INFO, (case map_of dest source_id of None \<Rightarrow> NotInDestination source_id
                  | Some dts \<Rightarrow> SourceNewer source_id source_timestamp dts))
          # snd (snd (publish_resource store iget source_id catalog)))"
proof -
  obtain r c lg where pub: "publish_resource store iget source_id catalog = (r, c, lg)"
    by (rule prod_cases3)
  with assms(2) have r: "r = Some e" by simp
  show ?thesis
    using assms(1,3) pub r by (cases e) (simp_all add: sync_source_item_cases)
qed

lemma sync_source_item_error:
  assumes "fst (sync_source_item store iget (map fst dest) (map snd dest) item catalog) = Some e"
  shows "needs_publish dest item \<and> fst (publish_resource store iget (fst item) catalog) = Some e
       \<and> (\<forall>i rc out err. e \<noteq> NetCDFPublicationError i rc out err)"
proof -
  obtain source_id source_timestamp where item: "item = (source_id, source_timestamp)" by (cases item)
  obtain r c lg where pub: "publish_resource store iget source_id catalog = (r, c, lg)"
    by (rule prod_cases3)
  show ?thesis
    using assms pub unfolding item
    by (auto simp: sync_source_item_cases split: if_splits option.splits error.splits)
qed

lemma sync_resources_publish_phase:
  assumes "scan_source store = (Inr source_netcdf, lg1)"
    and "sync_publish store iget (map fst (fst (scan_destination catalog)))
           (map snd (fst (scan_destination catalog))) source_netcdf catalog = (r, catalog1, lg3)"
  shows "publishing_ids (snd (snd (sync_resources store iget catalog))) = publishing_ids lg3"
    and "r = Some e \<Longrightarrow> sync_resources store iget catalog
           = (Some e, catalog1, (INFO, Syncing) # lg1 @ snd (scan_destination catalog) @ lg3)"
proof -
  have lg1: "publishing_ids lg1 = []"
    using scan_source_publishing [of store] assms(1) by simp
  obtain d lg2 where sd: "scan_destination catalog = (d, lg2)"
    by (cases "scan_destination catalog")
  have lg2: "publishing_ids lg2 = []"
    using scan_destination_publishing [of catalog] sd by simp
  have pub: "sync_publish store iget (map fst d) (map snd d) source_netcdf catalog = (r, catalog1, lg3)"
    using assms(2) sd by simp
  have abort: "sync_resources store iget catalog
           = (Some e', catalog1, (INFO, Syncing) # lg1 @ snd (scan_destination catalog) @ lg3)"
    if "r = Some e'" for e'
    using that by (simp add: sync_resources_def Let_def assms(1) sd pub)
  show "r = Some e \<Longrightarrow> sync_resources store iget catalog
           = (Some e, catalog1, (INFO, Syncing) # lg1 @ snd (scan_destination catalog) @ lg3)"
    by (rule abort)
  show "publishing_ids (snd (snd (sync_resources store iget catalog))) = publishing_ids lg3"
  proof (cases r)
    case (Some e')
    then show ?thesis using abort [OF Some] lg1 lg2 sd by simp
  next
    case None
    obtain r5 c5 lg5 where rm:
      "sync_remove (map fst source_netcdf) (fst (scan_destination catalog1)) catalog1 = (r5, c5, lg5)"
      by (rule prod_cases3)
    have lg5: "publishing_ids lg5 = []"
      using sync_remove_publishing [of "map fst source_netcdf" "fst (scan_destination catalog1)" catalog1] rm
      by simp
    show ?thesis
      unfolding sync_resources_removal_phase [OF assms(1) assms(2) [unfolded None]] rm
      using lg1 lg2 lg5 sd scan_destination_publishing [of catalog1] by (cases r5) simp_all
  qed
qed

subsection \<open>Removals that succeed\<close>

text \<open>
  \<^verbatim>\<open>remove_resource\<close> succeeds exactly on a directory. With distinct names in the catalog
  the removal loop removes the entries that are due up to the first that is no directory.
\<close>

lemma remove_resource_ok_iff: "fst (remove_resource c x) = None \<longleftrightarrow> isdir c [x]"
proof (cases c)
  case (File s)
  then show ?thesis by (simp add: remove_resource_def shutil_rmtree_def isdir_def)
next
  case (Dir s es)
  then show ?thesis
    by (cases "map_of es x") (simp_all add: remove_resource_def shutil_rmtree_def isdir_def)
qed

lemma sync_destination_item_result:
  "fst (sync_destination_item source_ids (d, ts) c) = None \<longleftrightarrow> d \<in> set source_ids \<or> isdir c [d]"
proof (cases "d \<in> set source_ids")
  case True
  then show ?thesis by (simp add: sync_destination_item_def)
next
  case False
  obtain r1 c1 lg1 where rm: "remove_resource c d = (r1, c1, lg1)" by (rule prod_cases3)
  have "r1 = None \<longleftrightarrow> isdir c [d]"
    using remove_resource_ok_iff [of c d] rm by simp
  with False rm show ?thesis by (simp add: sync_destination_item_def)
qed

lemma sync_remove_exact:
  assumes "distinct (map fst dest)"
  shows "removed_ids (snd (snd (sync_remove source_ids dest catalog)))
           = takeWhile (\<lambda>x. isdir catalog [x]) (filter (\<lambda>x. x \<notin> set source_ids) (map fst dest))
       \<and> (fst (sync_remove source_ids dest catalog) = None \<longleftrightarrow>
            (\<forall>x \<in> set (filter (\<lambda>x. x \<notin> set source_ids) (map fst dest)). isdir catalog [x]))"
  using assms
proof (induction dest arbitrary: catalog)
  case Nil
  show ?case by simp
next
  case (Cons item dest)
  obtain d ts where item: "item = (d, ts)" by (cases item)
  obtain r1 c1 lg1 where one: "sync_destination_item source_ids (d, ts) catalog = (r1, c1, lg1)"
    by (rule prod_cases3)
  note cases1 = sync_destination_item_cases [OF one]
  have r1: "r1 = None \<longleftrightarrow> d \<in> set source_ids \<or> isdir catalog [d]"
    using sync_destination_item_result [of source_ids d ts catalog] one by simp
  have dist: "distinct (map fst dest)" and fresh_d: "d \<notin> set (map fst dest)"
    using Cons.prems item by simp_all
  obtain r2 c2 lg2 where rest: "sync_remove source_ids dest c1 = (r2, c2, lg2)"
    by (rule prod_cases3)
  note ih = Cons.IH [OF dist, of c1, unfolded rest, simplified]
  have same: "isdir c1 [x] = isdir catalog [x]" if "x \<in> set (map fst dest)" for x
  proof -
    from that fresh_d have "x \<noteq> d" by auto
    with cases1 have "lookup c1 [x] = lookup catalog [x]" by auto
    then show ?thesis by (simp add: isdir_def)
  qed
  have tw: "takeWhile (\<lambda>x. isdir c1 [x]) (filter (\<lambda>x. x \<notin> set source_ids) (map fst dest))
      = takeWhile (\<lambda>x. isdir catalog [x]) (filter (\<lambda>x. x \<notin> set source_ids) (map fst dest))"
    by (rule takeWhile_cong [OF refl]) (use same in auto)
  have all: "(\<forall>x \<in> set (filter (\<lambda>x. x \<notin> set source_ids) (map fst dest)). isdir c1 [x])
      \<longleftrightarrow> (\<forall>x \<in> set (filter (\<lambda>x. x \<notin> set source_ids) (map fst dest)). isdir catalog [x])"
    using same by auto
  show ?case
  proof (cases r1)
    case (Some e)
    with r1 have "d \<notin> set source_ids" "\<not> isdir catalog [d]" by simp_all
    moreover from cases1 Some have "removed_ids lg1 = []" by auto
    ultimately show ?thesis using item one Some by simp
  next
    case None
    show ?thesis
    proof (cases "d \<in> set source_ids")
      case True
      with cases1 have "lg1 = []" "c1 = catalog" by auto
      with True item one None rest ih show ?thesis by simp
    next
      case False
      with r1 None have isd: "isdir catalog [d]" by simp
      from cases1 False None have "removed_ids lg1 = [d]" by auto
      with False isd item one None rest ih tw all show ?thesis by simp
    qed
  qed
qed

lemma scan_destination_distinct:
  "distinct (map fst (entries catalog)) \<Longrightarrow> distinct (map fst (fst (scan_destination catalog)))"
  by (cases catalog) (simp_all add: scan_destination_def glob_def Let_def comp_def distinct_map_filter)

subsection \<open>Where a renamed entry ends up\<close>

text \<open>
  A rename touches the old and the new name only. So an entry stays where it is while no
  rename starts at or lands on its name, and an entry whose name is in the listing is
  found under its new name afterwards, provided no other name of the listing is replaced
  by the same name.
\<close>

lemma replace_spaces_Nil: "replace_spaces [] = []"
  by (simp add: replace_spaces_def)

lemma replace_spaces_Cons:
  "replace_spaces (c # g) =
     (if c = CHR '' '' then CHR ''_'' # CHR ''_'' # replace_spaces g else c # replace_spaces g)"
  by (simp add: replace_spaces_def)

lemma replace_spaces_eq_Nil: "replace_spaces g = [] \<longleftrightarrow> g = []"
  by (cases g) (simp_all add: replace_spaces_Cons replace_spaces_Nil)

lemma replace_spaces_eq_Cons:
  "replace_spaces g = x # xs \<longleftrightarrow>
     (\<exists>g'. g = CHR '' '' # g' \<and> x = CHR ''_'' \<and> (\<exists>ys. xs = CHR ''_'' # ys \<and> replace_spaces g' = ys))
   \<or> (\<exists>g'. g = x # g' \<and> x \<noteq> CHR '' '' \<and> replace_spaces g' = xs)"
  by (cases g) (auto simp: replace_spaces_Cons replace_spaces_Nil)

lemma preimage_a_b: "replace_spaces g = ''a__b'' \<Longrightarrow> g = ''a b'' \<or> g = ''a__b''"
  by (auto simp: replace_spaces_eq_Cons replace_spaces_eq_Nil)

lemma preimage_c_d_nc: "replace_spaces g = ''c__d.nc'' \<Longrightarrow> g = ''c d.nc'' \<or> g = ''c__d.nc''"
  by (auto simp: replace_spaces_eq_Cons replace_spaces_eq_Nil)

lemma map_of_rename_key_other:
  "x \<noteq> old \<Longrightarrow> x \<noteq> new \<Longrightarrow> map_of (rename_key old new es) x = map_of es x"
  by (induction es) (auto simp: rename_key_def)

lemma map_of_rename_key_new:
  "map_of es new = None \<Longrightarrow> map_of es old = Some n \<Longrightarrow> map_of (rename_key old new es) new = Some n"
  by (induction es) (auto simp: rename_key_def split: if_splits)

lemma rename_entry_other:
  assumes "rename_entry old new (Dir s es) = (None, t1)" and "x \<noteq> old" and "x \<noteq> new"
  shows "\<exists>es1. t1 = Dir s es1 \<and> map_of es1 x = map_of es x"
  using assms
  by (auto simp: map_of_rename_key_other map_of_filter_other split: option.splits if_splits)

lemma rename_entry_moved:
  assumes "rename_entry old new (Dir s es) = (None, t1)" and "map_of es old = Some n"
  shows "\<exists>es1. t1 = Dir s es1 \<and> map_of es1 new = Some n"
proof (cases "old = new")
  case True
  with assms show ?thesis by (auto split: if_splits)
next
  case False
  have filtered: "map_of (rename_key old new (filter (\<lambda>e. fst e \<noteq> new) es)) new = Some n"
    using assms(2) False by (simp add: map_of_rename_key_new map_of_filter_same map_of_filter_other)
  show ?thesis
    using assms False filtered
    by (auto simp: map_of_rename_key_new split: option.splits if_splits)
qed

lemma rename_each_keeps:
  "rename_each [] names (Dir s es, k) = (None, t', k') \<Longrightarrow> map_of es x = Some n \<Longrightarrow>
   \<forall>g \<in> set names. CHR '' '' \<in> set g \<longrightarrow> g \<noteq> x \<and> replace_spaces g \<noteq> x \<Longrightarrow>
   \<exists>es'. t' = Dir s es' \<and> map_of es' x = Some n"
proof (induction names arbitrary: es k)
  case Nil
  then show ?case by auto
next
  case (Cons g names)
  show ?case
  proof (cases "CHR '' '' \<in> set g")
    case False
    with Cons.prems have "rename_each [] names (Dir s es, k) = (None, t', k')" by simp
    from Cons.IH [OF this Cons.prems(2)] Cons.prems(3) show ?thesis by simp
  next
    case True
    obtain r1 t1 where one: "rename_entry g (replace_spaces g) (Dir s es) = (r1, t1)"
      by (cases "rename_entry g (replace_spaces g) (Dir s es)")
    with True Cons.prems(1) have r1: "r1 = None"
      and rest: "rename_each [] names (t1, k + 1) = (None, t', k')"
      by (auto simp: os_rename_def split: option.splits)
    have "x \<noteq> g" "x \<noteq> replace_spaces g" using Cons.prems(3) True by auto
    from rename_entry_other [OF one [unfolded r1] this] obtain es1
      where t1: "t1 = Dir s es1" and "map_of es1 x = map_of es x" by blast
    then have "map_of es1 x = Some n" using Cons.prems(2) by simp
    from Cons.IH [OF rest [unfolded t1] this] Cons.prems(3) show ?thesis by simp
  qed
qed

lemma rename_each_moves:
  "rename_each [] names (Dir s es, k) = (None, t', k') \<Longrightarrow> distinct names \<Longrightarrow> x \<in> set names \<Longrightarrow>
   CHR '' '' \<in> set x \<Longrightarrow> map_of es x = Some n \<Longrightarrow>
   \<forall>g \<in> set names. CHR '' '' \<in> set g \<longrightarrow> replace_spaces g = replace_spaces x \<longrightarrow> g = x \<Longrightarrow>
   \<exists>es'. t' = Dir s es' \<and> map_of es' (replace_spaces x) = Some n"
proof (induction names arbitrary: es k)
  case Nil
  then show ?case by simp
next
  case (Cons g names)
  have nospace: "CHR '' '' \<notin> set (replace_spaces x)" by (rule replace_spaces_no_space)
  show ?case
  proof (cases "g = x")
    case True
    obtain r1 t1 where one: "rename_entry x (replace_spaces x) (Dir s es) = (r1, t1)"
      by (cases "rename_entry x (replace_spaces x) (Dir s es)")
    with True Cons.prems(1,4) have r1: "r1 = None"
      and rest: "rename_each [] names (t1, k + 1) = (None, t', k')"
      by (auto simp: os_rename_def split: option.splits)
    from rename_entry_moved [OF one [unfolded r1] Cons.prems(5)] obtain es1
      where t1: "t1 = Dir s es1" and moved: "map_of es1 (replace_spaces x) = Some n" by blast
    have "\<forall>h \<in> set names. CHR '' '' \<in> set h \<longrightarrow> h \<noteq> replace_spaces x \<and> replace_spaces h \<noteq> replace_spaces x"
    proof (intro ballI impI)
      fix h assume h: "h \<in> set names" "CHR '' '' \<in> set h"
      then have "h \<noteq> x" using Cons.prems(2) True by auto
      moreover have "h \<noteq> replace_spaces x" using h(2) nospace by auto
      ultimately show "h \<noteq> replace_spaces x \<and> replace_spaces h \<noteq> replace_spaces x"
        using Cons.prems(6) h by auto
    qed
    from rename_each_keeps [OF rest [unfolded t1] moved this] show ?thesis .
  next
    case False
    then have xin: "x \<in> set names" using Cons.prems(3) by simp
    have dist: "distinct names" using Cons.prems(2) by simp
    have uniq: "\<forall>g \<in> set names. CHR '' '' \<in> set g \<longrightarrow> replace_spaces g = replace_spaces x \<longrightarrow> g = x"
      using Cons.prems(6) by simp
    show ?thesis
    proof (cases "CHR '' '' \<in> set g")
      case nosp: False
      with Cons.prems(1) have "rename_each [] names (Dir s es, k) = (None, t', k')" by simp
      from Cons.IH [OF this dist xin Cons.prems(4,5) uniq] show ?thesis .
    next
      case True
      obtain r1 t1 where one: "rename_entry g (replace_spaces g) (Dir s es) = (r1, t1)"
        by (cases "rename_entry g (replace_spaces g) (Dir s es)")
      with True Cons.prems(1) have r1: "r1 = None"
        and rest: "rename_each [] names (t1, k + 1) = (None, t', k')"
        by (auto simp: os_rename_def split: option.splits)
      have "x \<noteq> g" using False by simp
      moreover have "x \<noteq> replace_spaces g"
        using Cons.prems(4) replace_spaces_no_space [of g] by auto
      ultimately obtain es1 where t1: "t1 = Dir s es1" and "map_of es1 x = map_of es x"
        using rename_entry_other [OF one [unfolded r1]] by blast
      then have "map_of es1 x = Some n" using Cons.prems(5) by simp
      from Cons.IH [OF rest [unfolded t1] dist xin Cons.prems(4) this uniq] show ?thesis .
    qed
  qed
qed

lemma rename_children_track:
  assumes "distinct (map fst es)" and "set ks \<subseteq> set es" and "distinct ks"
    and "rename_walk (concat (map (\<lambda>e. rev (walk_from [fst e] (snd e))) ks)) (Dir s es, k) = (None, t', k')"
  shows "\<exists>es'. t' = Dir s es' \<and> map fst es' = map fst es
           \<and> (\<forall>x n. map_of es x = Some n \<longrightarrow> (x, n) \<notin> set ks \<longrightarrow> map_of es' x = Some n)
           \<and> (\<forall>e \<in> set ks. \<exists>c1 k1 k1'. map_of es' (fst e) = Some c1
                 \<and> rename_walk (rev (walk_from [] (snd e))) (snd e, k1) = (None, c1, k1'))"
  using assms
proof (induction ks arbitrary: es k)
  case Nil
  then show ?case by auto
next
  case (Cons e ks)
  obtain n ch where e: "e = (n, ch)" by (cases e)
  have mem: "(n, ch) \<in> set es" using Cons.prems(2) e by simp
  then have look: "map_of es n = Some ch"
    using Cons.prems(1) by simp
  then have l: "lookup (Dir s es) [n] = Some ch" by simp
  have w: "rev (walk_from [n] ch) = map (\<lambda>(r, ds, fs). ([n] @ r, ds, fs)) (rev (walk_from [] ch))"
    using walk_from_prefix [of "[n]" "[]" ch] by (simp add: rev_map)
  obtain r1 c1 k1 where sub: "rename_walk (rev (walk_from [] ch)) (ch, k) = (r1, c1, k1)"
    by (rule prod_cases3)
  have first: "rename_walk (rev (walk_from [n] ch)) (Dir s es, k) = (r1, Dir s (upd n c1 es), k1)"
    unfolding w using rename_walk_prefix [OF l, of "rev (walk_from [] ch)" k] sub look
    by (simp add: plug_Cons)
  have run: "rename_walk (rev (walk_from [n] ch) @ concat (map (\<lambda>e. rev (walk_from [fst e] (snd e))) ks))
               (Dir s es, k) = (None, t', k')"
    using Cons.prems(4) e by simp
  then have r1: "r1 = None"
    and rest: "rename_walk (concat (map (\<lambda>e. rev (walk_from [fst e] (snd e))) ks))
                 (Dir s (upd n c1 es), k1) = (None, t', k')"
    unfolding rename_walk_append first by (auto split: option.splits)
  have others: "\<And>e'. e' \<in> set ks \<Longrightarrow> fst e' \<noteq> n"
  proof
    fix e' assume e': "e' \<in> set ks" and "fst e' = n"
    moreover from e' Cons.prems(2) have "e' \<in> set es" by auto
    ultimately have "e' = (n, ch)"
      using mem Cons.prems(1) by (metis eq_key_imp_eq_value prod.collapse)
    with e' Cons.prems(3) e show False by simp
  qed
  have d1: "distinct (map fst (upd n c1 es))" using Cons.prems(1) by simp
  have sub1: "set ks \<subseteq> set (upd n c1 es)"
    using Cons.prems(2) others by (auto intro: set_upd_other)
  have dks: "distinct ks" using Cons.prems(3) by simp
  from Cons.IH [OF d1 sub1 dks rest] obtain es' where t': "t' = Dir s es'"
    and names: "map fst es' = map fst (upd n c1 es)"
    and keep: "\<forall>x m. map_of (upd n c1 es) x = Some m \<longrightarrow> (x, m) \<notin> set ks \<longrightarrow> map_of es' x = Some m"
    and kids: "\<forall>e \<in> set ks. \<exists>c1 k1 k1'. map_of es' (fst e) = Some c1
                 \<and> rename_walk (rev (walk_from [] (snd e))) (snd e, k1) = (None, c1, k1')"
    by blast
  have here: "map_of es' n = Some c1"
  proof -
    have "map_of (upd n c1 es) n = Some c1"
      using look by (simp add: map_of_upd_same map_of_in_dom)
    moreover have "(n, c1) \<notin> set ks" using others by force
    ultimately show ?thesis using keep by blast
  qed
  have keep': "\<forall>x m. map_of es x = Some m \<longrightarrow> (x, m) \<notin> set (e # ks) \<longrightarrow> map_of es' x = Some m"
  proof (intro allI impI)
    fix x m assume x: "map_of es x = Some m" and out: "(x, m) \<notin> set (e # ks)"
    have "x \<noteq> n"
    proof
      assume "x = n"
      with x look have "m = ch" by simp
      with \<open>x = n\<close> out e show False by simp
    qed
    then have "map_of (upd n c1 es) x = Some m" using x by (simp add: map_of_upd_other)
    moreover have "(x, m) \<notin> set ks" using out by simp
    ultimately show "map_of es' x = Some m" using keep by blast
  qed
  have kids': "\<forall>e' \<in> set (e # ks). \<exists>c1 k1 k1'. map_of es' (fst e') = Some c1
                 \<and> rename_walk (rev (walk_from [] (snd e'))) (snd e', k1) = (None, c1, k1')"
    using kids here sub r1 e by auto
  show ?case
    using t' names keep' kids' by simp
qed

lemma rename_walk_Dir:
  "rev (walk_from [] (Dir s es)) =
     concat (map (\<lambda>e. rev (walk_from [fst e] (snd e))) (rev (filter (\<lambda>e. is_dir (snd e)) es)))
     @ [([], map fst (filter (\<lambda>e. is_dir (snd e)) es), map fst (filter (\<lambda>e. \<not> is_dir (snd e)) es))]"
  by (simp add: rev_concat rev_map comp_def)

text \<open>The three phases of a completed run on a directory: the directories below it, its
  files, its directories.\<close>

lemma rename_walk_phases:
  assumes "wf_node (Dir s es)"
    and "rename_walk (rev (walk_from [] (Dir s es))) (Dir s es, k) = (None, c', k')"
  shows "\<exists>es1 k1 es2 k2.
           map fst es1 = map fst es
         \<and> (\<forall>x n. map_of es x = Some n \<longrightarrow> \<not> is_dir n \<longrightarrow> map_of es1 x = Some n)
         \<and> (\<forall>x n. map_of es x = Some n \<longrightarrow> is_dir n \<longrightarrow>
               (\<exists>c1 j j'. map_of es1 x = Some c1 \<and> rename_walk (rev (walk_from [] n)) (n, j) = (None, c1, j')))
         \<and> rename_each [] (map fst (filter (\<lambda>e. \<not> is_dir (snd e)) es)) (Dir s es1, k1) = (None, Dir s es2, k2)
         \<and> rename_each [] (map fst (filter (\<lambda>e. is_dir (snd e)) es)) (Dir s es2, k2) = (None, c', k')"
proof -
  let ?kids = "filter (\<lambda>e. is_dir (snd e)) es"
  let ?dirs = "map fst ?kids"
  let ?files = "map fst (filter (\<lambda>e. \<not> is_dir (snd e)) es)"
  let ?sub = "concat (map (\<lambda>e. rev (walk_from [fst e] (snd e))) (rev ?kids))"
  obtain r1 t1 k1 where kids: "rename_walk ?sub (Dir s es, k) = (r1, t1, k1)"
    by (rule prod_cases3)
  from assms(2) have r1: "r1 = None"
    and top: "rename_walk [([], ?dirs, ?files)] (t1, k1) = (None, c', k')"
    unfolding rename_walk_Dir rename_walk_append kids by (auto split: option.splits)
  have dist: "distinct (map fst es)" using assms(1) by simp
  then have dist_es: "distinct es" by (rule distinct_map [THEN iffD1, THEN conjunct1])
  have "set (rev ?kids) \<subseteq> set es" "distinct (rev ?kids)" using dist_es by auto
  from rename_children_track [OF dist this kids [unfolded r1]] obtain es1 where t1: "t1 = Dir s es1"
    and names1: "map fst es1 = map fst es"
    and keep: "\<forall>x n. map_of es x = Some n \<longrightarrow> (x, n) \<notin> set (rev ?kids) \<longrightarrow> map_of es1 x = Some n"
    and finished: "\<forall>e \<in> set (rev ?kids). \<exists>c1 j j'. map_of es1 (fst e) = Some c1
                 \<and> rename_walk (rev (walk_from [] (snd e))) (snd e, j) = (None, c1, j')"
    by blast
  obtain r2 t2 k2 where files: "rename_each [] ?files (Dir s es1, k1) = (r2, t2, k2)"
    by (rule prod_cases3)
  from top have r2: "r2 = None" and dirs: "rename_each [] ?dirs (t2, k2) = (None, c', k')"
    unfolding t1 using files by (auto split: option.splits prod.splits)
  from rename_each_entries [OF files [unfolded r2]] obtain es2 where t2: "t2 = Dir s es2"
    by blast
  have a: "\<forall>x n. map_of es x = Some n \<longrightarrow> \<not> is_dir n \<longrightarrow> map_of es1 x = Some n"
    using keep by auto
  have b: "\<forall>x n. map_of es x = Some n \<longrightarrow> is_dir n \<longrightarrow>
               (\<exists>c1 j j'. map_of es1 x = Some c1 \<and> rename_walk (rev (walk_from [] n)) (n, j) = (None, c1, j'))"
  proof (intro allI impI)
    fix x n assume "map_of es x = Some n" "is_dir n"
    then have "(x, n) \<in> set (rev ?kids)" by (auto dest: map_of_SomeD)
    with finished show "\<exists>c1 j j'. map_of es1 x = Some c1 \<and> rename_walk (rev (walk_from [] n)) (n, j) = (None, c1, j')"
      by fastforce
  qed
  show ?thesis
    using names1 a b files [unfolded r2 t2] dirs [unfolded t2] by blast
qed

lemma file_lands:
  assumes "wf_node (Dir s es)" and "map_of es f = Some (File s2)" and "CHR '' '' \<in> set f"
    and "\<forall>g \<in> fst ` set es. replace_spaces g = replace_spaces f \<longrightarrow> g = f \<or> g = replace_spaces f"
    and "rename_walk (rev (walk_from [] (Dir s es))) (Dir s es, k) = (None, c', k')"
  shows "\<exists>es'. c' = Dir s es' \<and> map_of es' (replace_spaces f) = Some (File s2)"
proof -
  let ?dirs = "map fst (filter (\<lambda>e. is_dir (snd e)) es)"
  let ?files = "map fst (filter (\<lambda>e. \<not> is_dir (snd e)) es)"
  from rename_walk_phases [OF assms(1,5)] obtain es1 k1 es2 k2 where
    keep: "\<forall>x n. map_of es x = Some n \<longrightarrow> \<not> is_dir n \<longrightarrow> map_of es1 x = Some n"
    and files: "rename_each [] ?files (Dir s es1, k1) = (None, Dir s es2, k2)"
    and dirs: "rename_each [] ?dirs (Dir s es2, k2) = (None, c', k')"
    by blast
  have dist: "distinct (map fst es)" using assms(1) by simp
  have mem: "(f, File s2) \<in> set es" using assms(2) by (rule map_of_SomeD)
  have at1: "map_of es1 f = Some (File s2)" using keep assms(2) by simp
  have dfiles: "distinct ?files" using dist by (simp add: distinct_map_filter)
  have fin: "f \<in> set ?files" using mem by force
  have nospace: "CHR '' '' \<notin> set (replace_spaces f)" by (rule replace_spaces_no_space)
  have uniq: "\<forall>g \<in> fst ` set es. CHR '' '' \<in> set g \<longrightarrow> replace_spaces g = replace_spaces f \<longrightarrow> g = f"
  proof (intro ballI impI)
    fix g assume g: "g \<in> fst ` set es" "CHR '' '' \<in> set g" "replace_spaces g = replace_spaces f"
    with assms(4) have "g = f \<or> g = replace_spaces f" by blast
    moreover have "g \<noteq> replace_spaces f" using g(2) nospace by blast
    ultimately show "g = f" by blast
  qed
  have "\<forall>g \<in> set ?files. CHR '' '' \<in> set g \<longrightarrow> replace_spaces g = replace_spaces f \<longrightarrow> g = f"
  proof (intro ballI impI)
    fix g assume g: "g \<in> set ?files" "CHR '' '' \<in> set g" "replace_spaces g = replace_spaces f"
    from g(1) have "g \<in> fst ` set es" by auto
    with uniq g(2,3) show "g = f" by blast
  qed
  from rename_each_moves [OF files dfiles fin assms(3) at1 this] obtain es2' where
    "Dir s es2 = Dir s es2'" "map_of es2' (replace_spaces f) = Some (File s2)" by blast
  then have at2: "map_of es2 (replace_spaces f) = Some (File s2)" by simp
  have "\<forall>g \<in> set ?dirs. CHR '' '' \<in> set g \<longrightarrow> g \<noteq> replace_spaces f \<and> replace_spaces g \<noteq> replace_spaces f"
  proof (intro ballI impI)
    fix g assume g: "g \<in> set ?dirs" "CHR '' '' \<in> set g"
    then obtain c where c: "(g, c) \<in> set es" "is_dir c" by auto
    have "g \<noteq> f"
    proof
      assume "g = f"
      with c mem dist have "c = File s2" by (metis eq_key_imp_eq_value)
      with c(2) show False by simp
    qed
    moreover have "g \<in> fst ` set es" using c(1) by force
    ultimately have "replace_spaces g \<noteq> replace_spaces f" using uniq g(2) by blast
    moreover have "g \<noteq> replace_spaces f" using g(2) nospace by auto
    ultimately show "g \<noteq> replace_spaces f \<and> replace_spaces g \<noteq> replace_spaces f" by simp
  qed
  from rename_each_keeps [OF dirs at2 this] show ?thesis .
qed

lemma directory_lands:
  assumes "wf_node (Dir s es)" and "map_of es d = Some ch" and "is_dir ch" and "CHR '' '' \<in> set d"
    and "\<forall>g \<in> fst ` set es. replace_spaces g = replace_spaces d \<longrightarrow> g = d \<or> g = replace_spaces d"
    and "rename_walk (rev (walk_from [] (Dir s es))) (Dir s es, k) = (None, c', k')"
  shows "\<exists>es' c1 j j'. c' = Dir s es' \<and> map_of es' (replace_spaces d) = Some c1
           \<and> rename_walk (rev (walk_from [] ch)) (ch, j) = (None, c1, j')"
proof -
  let ?dirs = "map fst (filter (\<lambda>e. is_dir (snd e)) es)"
  let ?files = "map fst (filter (\<lambda>e. \<not> is_dir (snd e)) es)"
  from rename_walk_phases [OF assms(1,6)] obtain es1 k1 es2 k2 where
    kids: "\<forall>x n. map_of es x = Some n \<longrightarrow> is_dir n \<longrightarrow>
               (\<exists>c1 j j'. map_of es1 x = Some c1 \<and> rename_walk (rev (walk_from [] n)) (n, j) = (None, c1, j'))"
    and files: "rename_each [] ?files (Dir s es1, k1) = (None, Dir s es2, k2)"
    and dirs: "rename_each [] ?dirs (Dir s es2, k2) = (None, c', k')"
    by blast
  from kids assms(2,3) obtain c1 j j' where at1: "map_of es1 d = Some c1"
    and sub: "rename_walk (rev (walk_from [] ch)) (ch, j) = (None, c1, j')"
    by blast
  have dist: "distinct (map fst es)" using assms(1) by simp
  have mem: "(d, ch) \<in> set es" using assms(2) by (rule map_of_SomeD)
  have nospace: "CHR '' '' \<notin> set (replace_spaces d)" by (rule replace_spaces_no_space)
  have "\<forall>g \<in> set ?files. CHR '' '' \<in> set g \<longrightarrow> g \<noteq> d \<and> replace_spaces g \<noteq> d"
  proof (intro ballI impI)
    fix g assume g: "g \<in> set ?files" "CHR '' '' \<in> set g"
    then obtain c where c: "(g, c) \<in> set es" "\<not> is_dir c" by auto
    have "g \<noteq> d"
    proof
      assume "g = d"
      with c mem dist have "c = ch" by (metis eq_key_imp_eq_value)
      with c(2) assms(3) show False by simp
    qed
    moreover have "replace_spaces g \<noteq> d" using assms(4) replace_spaces_no_space [of g] by auto
    ultimately show "g \<noteq> d \<and> replace_spaces g \<noteq> d" by simp
  qed
  from rename_each_keeps [OF files at1 this] have at2: "map_of es2 d = Some c1" by simp
  have ddirs: "distinct ?dirs" using dist by (simp add: distinct_map_filter)
  have din: "d \<in> set ?dirs" using mem assms(3) by force
  have "\<forall>g \<in> set ?dirs. CHR '' '' \<in> set g \<longrightarrow> replace_spaces g = replace_spaces d \<longrightarrow> g = d"
  proof (intro ballI impI)
    fix g assume g: "g \<in> set ?dirs" "CHR '' '' \<in> set g" "replace_spaces g = replace_spaces d"
    from g(1) have "g \<in> fst ` set es" by auto
    with assms(5) g(3) have "g = d \<or> g = replace_spaces d" by blast
    moreover have "g \<noteq> replace_spaces d" using g(2) nospace by blast
    ultimately show "g = d" by blast
  qed
  from rename_each_moves [OF dirs ddirs din assms(4) at2 this] sub show ?thesis by blast
qed

lemma lookup_append:
  "lookup t (p @ q) = (case lookup t p of None \<Rightarrow> None | Some c \<Rightarrow> lookup c q)"
proof (induction p arbitrary: t)
  case Nil
  show ?case by simp
next
  case (Cons x p)
  show ?case by (cases t) (simp_all add: Cons.IH split: option.splits)
qed

subsection \<open>The order of the walk\<close>

text \<open>
  Every triple of the walk from \<open>root\<close> has a path that extends \<open>root\<close>, and in a well-formed
  tree the walks of two entries of a directory share no path. So in \<^verbatim>\<open>os.walk\<close> no directory
  comes after a directory below it, and in the reversed list none comes before one.
\<close>

lemma walk_from_roots: "triple \<in> set (walk_from root c) \<Longrightarrow> prefix root (fst triple)"
proof (induction root c arbitrary: triple rule: walk_from.induct)
  case (1 root s)
  then show ?case by simp
next
  case (2 root s es)
  from "2.prems" consider
      "fst triple = root"
    | e where "e \<in> set es" "is_dir (snd e)" "triple \<in> set (walk_from (root @ [fst e]) (snd e))"
    by auto
  then show ?case
  proof cases
    case 1
    then show ?thesis by simp
  next
    case (2 e)
    then have "prefix (root @ [fst e]) (fst triple)"
      using "2.IH" [of e triple] by simp
    then show ?thesis by (rule append_prefixD)
  qed
qed

lemma siblings_apart:
  "prefix (root @ [n]) a \<Longrightarrow> prefix (root @ [m]) b \<Longrightarrow> n \<noteq> m \<Longrightarrow> \<not> prefix b a"
  by (auto simp: prefix_def)

lemma walk_from_sorted:
  "wf_node c \<Longrightarrow> sorted_wrt (\<lambda>a b. \<not> strict_prefix (fst b) (fst a)) (walk_from root c)"
proof (induction root c rule: walk_from.induct)
  case (1 root s)
  show ?case by simp
next
  case (2 root s es)
  let ?P = "\<lambda>a b :: path \<times> string list \<times> string list. \<not> strict_prefix (fst b) (fst a)"
  let ?kids = "filter (\<lambda>e. is_dir (snd e)) es"
  have each: "sorted_wrt ?P (walk_from (root @ [fst e]) (snd e))" if "e \<in> set ?kids" for e
  proof -
    from that have "e \<in> set es" by simp
    with "2.prems" have "wf_node (snd e)" by simp
    with that show ?thesis using "2.IH" [of e] by simp
  qed
  have inner: "sorted_wrt ?P (concat (map (\<lambda>e. walk_from (root @ [fst e]) (snd e)) ks))"
    if "set ks \<subseteq> set ?kids" "distinct (map fst ks)" for ks
    using that
  proof (induction ks)
    case Nil
    show ?case by simp
  next
    case (Cons k ks)
    have "\<not> strict_prefix (fst y) (fst x)"
      if x: "x \<in> set (walk_from (root @ [fst k]) (snd k))"
        and y: "y \<in> set (concat (map (\<lambda>e. walk_from (root @ [fst e]) (snd e)) ks))" for x y
    proof -
      from y obtain e where e: "e \<in> set ks" "y \<in> set (walk_from (root @ [fst e]) (snd e))" by auto
      then have "fst k \<noteq> fst e" using Cons.prems(2) by force
      with walk_from_roots [OF x] walk_from_roots [OF e(2)] have "\<not> prefix (fst y) (fst x)"
        by (rule siblings_apart)
      then show ?thesis by (simp add: strict_prefix_def)
    qed
    moreover have "sorted_wrt ?P (walk_from (root @ [fst k]) (snd k))"
      using each Cons.prems(1) by simp
    moreover have "sorted_wrt ?P (concat (map (\<lambda>e. walk_from (root @ [fst e]) (snd e)) ks))"
      using Cons.IH Cons.prems by simp
    ultimately show ?case by (simp add: sorted_wrt_append)
  qed
  have "distinct (map fst ?kids)" using "2.prems" by (simp add: distinct_map_filter)
  then have below: "sorted_wrt ?P (concat (map (\<lambda>e. walk_from (root @ [fst e]) (snd e)) ?kids))"
    using inner [of ?kids] by simp
  have top: "\<not> strict_prefix (fst y) root"
    if "y \<in> set (concat (map (\<lambda>e. walk_from (root @ [fst e]) (snd e)) ?kids))" for y
  proof -
    from that obtain e where "y \<in> set (walk_from (root @ [fst e]) (snd e))" by auto
    then have "prefix (root @ [fst e]) (fst y)" by (rule walk_from_roots)
    then show ?thesis by (auto simp: strict_prefix_def prefix_def)
  qed
  show ?case using below top by simp
qed

lemma os_walk_deepest_first:
  assumes "lookup t p = Some c" and "wf_node c"
  shows "sorted_wrt (\<lambda>a b. \<not> strict_prefix (fst a) (fst b)) (rev (os_walk p t))"
  unfolding sorted_wrt_rev os_walk_def using assms walk_from_sorted [of c p] by simp

section \<open>The claims\<close>

subsection \<open>C1: which source items are published\<close>

text \<open>
  Claim C1 says that the driver publishes a source item if and only if the item is due:
  absent from the destination inventory, or newer than the timestamp recorded there. In
  the run below the catalog is empty, so both resources of the source are due; the
  publication of the first raises \<^verbatim>\<open>IsADirectoryError\<close>, which the loop does not catch, the run
  ends there, and the second resource is never published.
\<close>

theorem due_item_not_published_counterexample:
  "fst (scan_source store_ab) = Inr [(id_a, 5), (id_b, 6)]
   \<and> fst (scan_destination (Dir fresh [])) = []
   \<and> id_b \<notin> fst ` set (fst (scan_destination (Dir fresh [])))
   \<and> fst (sync_resources store_ab (iget_copy store_ab) (Dir fresh [])) = Some IsADirectoryError
   \<and> publishing_ids (snd (snd (sync_resources store_ab (iget_copy store_ab) (Dir fresh [])))) = [id_a]
   \<and> id_b \<notin> set (publishing_ids (snd (snd (sync_resources store_ab (iget_copy store_ab) (Dir fresh [])))))
   \<and> lookup (fst (snd (sync_resources store_ab (iget_copy store_ab) (Dir fresh [])))) [id_b] = None"
  by code_simp

text \<open>
  Claim C1, amended, for a run of \<^verbatim>\<open>sync_resources\<close> whose source scan succeeded, with the
  destination inventory that the run itself scans. A round of the publish loop enters
  \<^verbatim>\<open>publish_resource\<close> for its item exactly when the item's identifier is absent from the
  destination inventory or its timestamp is strictly greater than the one recorded there;
  with an equal or smaller timestamp it publishes nothing. The loop handles the source
  inventory in order: the resources published in the run are the due items among those
  handled. Either all items are handled, or the last one handled is a due item whose
  publication raised an exception other than \<open>NetCDFPublicationError\<close>, after the items
  before it had been handled normally; that exception ends the run, and the items after it
  are not published.
\<close>

theorem sync_publishes_due_until_abort:
  assumes "scan_source store = (Inr source_netcdf, lg1)"
  shows "(\<forall>destination_netcdf source_id source_timestamp c.
            publishing_ids (snd (snd (sync_source_item store iget (map fst destination_netcdf)
                (map snd destination_netcdf) (source_id, source_timestamp) c)))
            = (if source_id \<notin> fst ` set destination_netcdf
                  \<or> (\<exists>dts. map_of destination_netcdf source_id = Some dts \<and> dts < source_timestamp)
               then [source_id] else []))
       \<and> (\<exists>handled rest.
            source_netcdf = handled @ rest
          \<and> publishing_ids (snd (snd (sync_resources store iget catalog)))
              = map fst (filter (\<lambda>item. fst item \<notin> fst ` set (fst (scan_destination catalog))
                    \<or> (\<exists>dts. map_of (fst (scan_destination catalog)) (fst item) = Some dts \<and> dts < snd item))
                  handled)
          \<and> (rest = [] \<or>
               (\<exists>before item e cb lgb.
                   handled = before @ [item]
                 \<and> (fst item \<notin> fst ` set (fst (scan_destination catalog))
                      \<or> (\<exists>dts. map_of (fst (scan_destination catalog)) (fst item) = Some dts \<and> dts < snd item))
                 \<and> sync_publish store iget (map fst (fst (scan_destination catalog)))
                      (map snd (fst (scan_destination catalog))) before catalog = (None, cb, lgb)
                 \<and> fst (publish_resource store iget (fst item) cb) = Some e
                 \<and> (\<forall>i rc out err. e \<noteq> NetCDFPublicationError i rc out err)
                 \<and> fst (sync_resources store iget catalog) = Some e)))"
proof (intro conjI allI)
  fix destination_netcdf :: "(string \<times> int) list" and source_id source_timestamp c
  show "publishing_ids (snd (snd (sync_source_item store iget (map fst destination_netcdf)
                (map snd destination_netcdf) (source_id, source_timestamp) c)))
            = (if source_id \<notin> fst ` set destination_netcdf
                  \<or> (\<exists>dts. map_of destination_netcdf source_id = Some dts \<and> dts < source_timestamp)
               then [source_id] else [])"
    unfolding needs_publish_iff [symmetric] by (rule sync_source_item_publishing)
next
  let ?D = "fst (scan_destination catalog)"
  obtain r catalog1 lg3 where loop:
    "sync_publish store iget (map fst ?D) (map snd ?D) source_netcdf catalog = (r, catalog1, lg3)"
    by (rule prod_cases3)
  note phase = sync_resources_publish_phase [OF assms loop]
  have due_eq: "(\<lambda>item. fst item \<notin> fst ` set ?D
                    \<or> (\<exists>dts. map_of ?D (fst item) = Some dts \<and> dts < snd item)) = needs_publish ?D"
    by (simp add: fun_eq_iff needs_publish_iff2)
  show "\<exists>handled rest.
            source_netcdf = handled @ rest
          \<and> publishing_ids (snd (snd (sync_resources store iget catalog)))
              = map fst (filter (\<lambda>item. fst item \<notin> fst ` set ?D
                    \<or> (\<exists>dts. map_of ?D (fst item) = Some dts \<and> dts < snd item))
                  handled)
          \<and> (rest = [] \<or>
               (\<exists>before item e cb lgb.
                   handled = before @ [item]
                 \<and> (fst item \<notin> fst ` set ?D
                      \<or> (\<exists>dts. map_of ?D (fst item) = Some dts \<and> dts < snd item))
                 \<and> sync_publish store iget (map fst ?D) (map snd ?D) before catalog = (None, cb, lgb)
                 \<and> fst (publish_resource store iget (fst item) cb) = Some e
                 \<and> (\<forall>i rc out err. e \<noteq> NetCDFPublicationError i rc out err)
                 \<and> fst (sync_resources store iget catalog) = Some e))"
  proof (cases r)
    case None
    have "publishing_ids lg3 = map fst (filter (needs_publish ?D) source_netcdf)"
      using sync_publish_publishing [OF loop] None by simp
    then have "source_netcdf = source_netcdf @ []
        \<and> publishing_ids (snd (snd (sync_resources store iget catalog)))
              = map fst (filter (\<lambda>item. fst item \<notin> fst ` set ?D
                    \<or> (\<exists>dts. map_of ?D (fst item) = Some dts \<and> dts < snd item))
                  source_netcdf)"
      unfolding due_eq phase(1) by simp
    then show ?thesis by blast
  next
    case (Some e)
    from sync_publish_split [OF loop [unfolded Some]] obtain before item rest cb lgb lgi
      where split: "source_netcdf = before @ item # rest"
        and before: "sync_publish store iget (map fst ?D) (map snd ?D) before catalog = (None, cb, lgb)"
        and round: "sync_source_item store iget (map fst ?D) (map snd ?D) item cb = (Some e, catalog1, lgi)"
        and lg3: "lg3 = lgb @ lgi"
      by blast
    have "fst (sync_source_item store iget (map fst ?D) (map snd ?D) item cb) = Some e"
      using round by simp
    from sync_source_item_error [OF this]
    have due: "needs_publish ?D item"
      and raised: "fst (publish_resource store iget (fst item) cb) = Some e"
      and other: "\<forall>i rc out err. e \<noteq> NetCDFPublicationError i rc out err"
      by simp_all
    have ids_before: "publishing_ids lgb = map fst (filter (needs_publish ?D) before)"
      using sync_publish_publishing [OF before] by simp
    have ids_item: "publishing_ids lgi = [fst item]"
      using sync_source_item_publishing [of store iget ?D "fst item" "snd item" cb] round due by simp
    have ids: "publishing_ids (snd (snd (sync_resources store iget catalog)))
        = map fst (filter (needs_publish ?D) (before @ [item]))"
      unfolding phase(1) lg3 using ids_before ids_item due by simp
    have ended: "fst (sync_resources store iget catalog) = Some e"
      using phase(2) [OF Some] by simp
    have "source_netcdf = (before @ [item]) @ rest
        \<and> publishing_ids (snd (snd (sync_resources store iget catalog)))
              = map fst (filter (\<lambda>item. fst item \<notin> fst ` set ?D
                    \<or> (\<exists>dts. map_of ?D (fst item) = Some dts \<and> dts < snd item))
                  (before @ [item]))
        \<and> (before @ [item] = before @ [item]
             \<and> (fst item \<notin> fst ` set ?D
                      \<or> (\<exists>dts. map_of ?D (fst item) = Some dts \<and> dts < snd item))
             \<and> sync_publish store iget (map fst ?D) (map snd ?D) before catalog = (None, cb, lgb)
             \<and> fst (publish_resource store iget (fst item) cb) = Some e
             \<and> (\<forall>i rc out err. e \<noteq> NetCDFPublicationError i rc out err)
             \<and> fst (sync_resources store iget catalog) = Some e)"
      unfolding due_eq using split ids due [unfolded needs_publish_iff2] before raised other ended
      by simp
    then show ?thesis by blast
  qed
qed

text \<open>An instance: one item is missing from the destination, one is up to date; \<^verbatim>\<open>iget\<close> fails,
  which the loop survives, so both items are handled.\<close>

theorem sync_publishes_due_until_abort_witness:
  "scan_source store_ab = (Inr [(id_a, 5), (id_b, 6)], snd (scan_source store_ab))
   \<and> fst (scan_destination catalog_d) = [(id_d, 0), (id_b, 6)]
   \<and> fst (sync_resources store_ab iget_fail catalog_d) = None
   \<and> publishing_ids (snd (snd (sync_resources store_ab iget_fail catalog_d))) = [id_a]"
proof -
  have scan: "scan_source store_ab = (Inr [(id_a, 5), (id_b, 6)], snd (scan_source store_ab))"
    by code_simp
  have dest: "fst (scan_destination catalog_d) = [(id_d, 0), (id_b, 6)]"
    by code_simp
  have ok: "fst (sync_resources store_ab iget_fail catalog_d) = None"
    by code_simp
  have due: "map fst (filter (needs_publish [(id_d, 0), (id_b, 6)]) [(id_a, 5), (id_b, 6)]) = [id_a]"
    by code_simp
  from sync_publishes_due_until_abort [OF scan, of iget_fail catalog_d, THEN conjunct2]
  obtain handled rest where split: "[(id_a, 5), (id_b, 6)] = handled @ rest"
    and ids: "publishing_ids (snd (snd (sync_resources store_ab iget_fail catalog_d)))
              = map fst (filter (needs_publish (fst (scan_destination catalog_d))) handled)"
    and ended: "rest = [] \<or> (\<exists>e. fst (sync_resources store_ab iget_fail catalog_d) = Some e)"
    unfolding needs_publish_iff2 [symmetric] by blast
  from ended ok have "rest = []" by simp
  with split ids dest due
  have "publishing_ids (snd (snd (sync_resources store_ab iget_fail catalog_d))) = [id_a]"
    by simp
  with scan dest ok show ?thesis by simp
qed

subsection \<open>C2: failures of a publish attempt\<close>

text \<open>
  Claim C2 says that no failure of a publish attempt aborts the run. In the store below the
  first resource holds a file \<^verbatim>\<open>a b\<close> next to a directory \<^verbatim>\<open>a__b\<close>. \<^verbatim>\<open>iget\<close> succeeds, the
  rename of the file onto the directory raises \<^verbatim>\<open>IsADirectoryError\<close> inside
  \<^verbatim>\<open>replace_spaces_in_names\<close>, the \<^verbatim>\<open>except NetCDFPublicationError\<close> clause does not catch it,
  and the run ends there: the second resource, which is due, is never attempted, and no
  warning is logged.
\<close>

theorem publish_failure_aborts_counterexample:
  "fst (scan_source store_ab) = Inr [(id_a, 5), (id_b, 6)]
   \<and> fst (publish_resource store_ab (iget_copy store_ab) id_a (Dir fresh [])) = Some IsADirectoryError
   \<and> fst (sync_resources store_ab (iget_copy store_ab) (Dir fresh [])) = Some IsADirectoryError
   \<and> id_b \<notin> fst ` set (fst (scan_destination (Dir fresh [])))
   \<and> (INFO, Publishing id_b) \<notin> set (snd (snd (sync_resources store_ab (iget_copy store_ab) (Dir fresh []))))
   \<and> (WARNING, SyncIncomplete) \<notin> set (snd (snd (sync_resources store_ab (iget_copy store_ab) (Dir fresh []))))"
  by code_simp

text \<open>
  Claim C2, amended, for a source item that is due. When its publish attempt fails with
  \<open>NetCDFPublicationError\<close>, the failure is caught in its round: the round ends normally, the
  error line of the publisher and the warning of the driver are in the log, and the loop
  goes on with the remaining source items from the catalog the failed attempt left. When
  the attempt raises any other exception, nothing catches it: the round ends with that
  exception and logs no warning, the loop ends with it wherever the item stands in the
  inventory, and so does the run, with the catalog as the failed attempt left it; the log
  of the run stops at that attempt, so no later item is attempted and nothing is removed.
\<close>

theorem publication_error_is_isolated:
  assumes "source_id \<notin> fst ` set destination_netcdf
         \<or> (\<exists>dts. map_of destination_netcdf source_id = Some dts \<and> dts < source_timestamp)"
  shows "(\<forall>i rc out err.
            fst (publish_resource store iget source_id catalog) = Some (NetCDFPublicationError i rc out err) \<longrightarrow>
              fst (sync_source_item store iget (map fst destination_netcdf) (map snd destination_netcdf)
                     (source_id, source_timestamp) catalog) = None
            \<and> (ERROR, PublishFailed source_id rc out err) \<in> set (snd (snd (sync_source_item store iget
                 (map fst destination_netcdf) (map snd destination_netcdf) (source_id, source_timestamp) catalog)))
            \<and> (WARNING, SyncIncomplete) \<in> set (snd (snd (sync_source_item store iget
                 (map fst destination_netcdf) (map snd destination_netcdf) (source_id, source_timestamp) catalog)))
            \<and> sync_publish store iget (map fst destination_netcdf) (map snd destination_netcdf)
                 ((source_id, source_timestamp) # rest) catalog
               = (case sync_source_item store iget (map fst destination_netcdf) (map snd destination_netcdf)
                         (source_id, source_timestamp) catalog of
                    (r, c, lg) \<Rightarrow>
                      (case sync_publish store iget (map fst destination_netcdf) (map snd destination_netcdf) rest c of
                         (r', c', lg') \<Rightarrow> (r', c', lg @ lg'))))
       \<and> (\<forall>e. fst (publish_resource store iget source_id catalog) = Some e
               \<and> (\<forall>i rc out err. e \<noteq> NetCDFPublicationError i rc out err) \<longrightarrow>
              fst (sync_source_item store iget (map fst destination_netcdf) (map snd destination_netcdf)
                     (source_id, source_timestamp) catalog) = Some e
            \<and> fst (snd (sync_source_item store iget (map fst destination_netcdf) (map snd destination_netcdf)
                     (source_id, source_timestamp) catalog))
                = fst (snd (publish_resource store iget source_id catalog))
            \<and> (WARNING, SyncIncomplete) \<notin> set (snd (snd (sync_source_item store iget
                 (map fst destination_netcdf) (map snd destination_netcdf) (source_id, source_timestamp) catalog)))
            \<and> (\<forall>before catalog0 lgb.
                  sync_publish store iget (map fst destination_netcdf) (map snd destination_netcdf)
                    before catalog0 = (None, catalog, lgb) \<longrightarrow>
                    sync_publish store iget (map fst destination_netcdf) (map snd destination_netcdf)
                      (before @ (source_id, source_timestamp) # rest) catalog0
                    = (Some e, fst (snd (publish_resource store iget source_id catalog)),
                       lgb @ snd (snd (sync_source_item store iget (map fst destination_netcdf)
                                (map snd destination_netcdf) (source_id, source_timestamp) catalog)))
                  \<and> (\<forall>lg1. scan_source store = (Inr (before @ (source_id, source_timestamp) # rest), lg1)
                            \<and> destination_netcdf = fst (scan_destination catalog0) \<longrightarrow>
                         sync_resources store iget catalog0
                         = (Some e, fst (snd (publish_resource store iget source_id catalog)),
                            (INFO, Syncing) # lg1 @ snd (scan_destination catalog0) @ lgb
                            @ snd (snd (sync_source_item store iget (map fst destination_netcdf)
                                (map snd destination_netcdf) (source_id, source_timestamp) catalog)))
                       \<and> publishing_ids (snd (snd (sync_resources store iget catalog0)))
                           = publishing_ids lgb @ [source_id]
                       \<and> removed_ids (snd (snd (sync_resources store iget catalog0))) = [])))"
proof (intro conjI allI impI)
  fix i rc out err
  assume fails: "fst (publish_resource store iget source_id catalog) = Some (NetCDFPublicationError i rc out err)"
  obtain r c lg where pub: "publish_resource store iget source_id catalog = (r, c, lg)"
    by (rule prod_cases3)
  with fails have r: "r = Some (NetCDFPublicationError i rc out err)" by simp
  from publish_resource_publication_error [OF fails] pub
  have lg: "lg = [(INFO, Publishing source_id), (ERROR, PublishFailed source_id rc out err)]"
    by auto
  have item: "sync_source_item store iget (map fst destination_netcdf) (map snd destination_netcdf)
      (source_id, source_timestamp) catalog
      = (None, c, (INFO, (case map_of destination_netcdf source_id of
                            None \<Rightarrow> NotInDestination source_id
                          | Some dts \<Rightarrow> SourceNewer source_id source_timestamp dts))
                  # lg @ [(WARNING, SyncIncomplete)])"
    using assms pub r by (simp add: sync_source_item_cases needs_publish_iff)
  show "fst (sync_source_item store iget (map fst destination_netcdf) (map snd destination_netcdf)
                     (source_id, source_timestamp) catalog) = None"
    unfolding item by simp
  show "(ERROR, PublishFailed source_id rc out err) \<in> set (snd (snd (sync_source_item store iget
                 (map fst destination_netcdf) (map snd destination_netcdf) (source_id, source_timestamp) catalog)))"
    unfolding item using lg by simp
  show "(WARNING, SyncIncomplete) \<in> set (snd (snd (sync_source_item store iget
                 (map fst destination_netcdf) (map snd destination_netcdf) (source_id, source_timestamp) catalog)))"
    unfolding item by simp
  show "sync_publish store iget (map fst destination_netcdf) (map snd destination_netcdf)
                 ((source_id, source_timestamp) # rest) catalog
               = (case sync_source_item store iget (map fst destination_netcdf) (map snd destination_netcdf)
                         (source_id, source_timestamp) catalog of
                    (r, c, lg) \<Rightarrow>
                      (case sync_publish store iget (map fst destination_netcdf) (map snd destination_netcdf) rest c of
                         (r', c', lg') \<Rightarrow> (r', c', lg @ lg')))"
    unfolding sync_publish.simps item by simp
next
  fix e
  assume other: "fst (publish_resource store iget source_id catalog) = Some e
               \<and> (\<forall>i rc out err. e \<noteq> NetCDFPublicationError i rc out err)"
  have due: "needs_publish destination_netcdf (source_id, source_timestamp)"
    using assms by (simp add: needs_publish_iff)
  let ?info = "(INFO, (case map_of destination_netcdf source_id of
                            None \<Rightarrow> NotInDestination source_id
                          | Some dts \<Rightarrow> SourceNewer source_id source_timestamp dts))"
  let ?c = "fst (snd (publish_resource store iget source_id catalog))"
  let ?lg = "snd (snd (publish_resource store iget source_id catalog))"
  have item: "sync_source_item store iget (map fst destination_netcdf) (map snd destination_netcdf)
      (source_id, source_timestamp) catalog = (Some e, ?c, ?info # ?lg)"
    using due other by (simp add: sync_source_item_other_error)
  show "fst (sync_source_item store iget (map fst destination_netcdf) (map snd destination_netcdf)
                     (source_id, source_timestamp) catalog) = Some e"
    unfolding item by simp
  show "fst (snd (sync_source_item store iget (map fst destination_netcdf) (map snd destination_netcdf)
                     (source_id, source_timestamp) catalog)) = ?c"
    unfolding item by simp
  show "(WARNING, SyncIncomplete) \<notin> set (snd (snd (sync_source_item store iget
                 (map fst destination_netcdf) (map snd destination_netcdf) (source_id, source_timestamp) catalog)))"
    unfolding item using publish_resource_no_warning [of store iget source_id catalog]
    by (simp split: option.splits)
  fix before catalog0 lgb
  assume before: "sync_publish store iget (map fst destination_netcdf) (map snd destination_netcdf)
                    before catalog0 = (None, catalog, lgb)"
  show loop: "sync_publish store iget (map fst destination_netcdf) (map snd destination_netcdf)
                      (before @ (source_id, source_timestamp) # rest) catalog0
                    = (Some e, ?c,
                       lgb @ snd (snd (sync_source_item store iget (map fst destination_netcdf)
                                (map snd destination_netcdf) (source_id, source_timestamp) catalog)))"
    unfolding sync_publish_append before by (simp add: item)
  fix lg1
  assume run: "scan_source store = (Inr (before @ (source_id, source_timestamp) # rest), lg1)
                            \<and> destination_netcdf = fst (scan_destination catalog0)"
  then have scan: "scan_source store = (Inr (before @ (source_id, source_timestamp) # rest), lg1)"
    and dest: "destination_netcdf = fst (scan_destination catalog0)" by simp_all
  note phase = sync_resources_publish_phase [OF scan loop [unfolded dest]]
  show whole: "sync_resources store iget catalog0
                         = (Some e, ?c,
                            (INFO, Syncing) # lg1 @ snd (scan_destination catalog0) @ lgb
                            @ snd (snd (sync_source_item store iget (map fst destination_netcdf)
                                (map snd destination_netcdf) (source_id, source_timestamp) catalog)))"
    using phase(2) [OF refl] unfolding dest by simp
  show "publishing_ids (snd (snd (sync_resources store iget catalog0))) = publishing_ids lgb @ [source_id]"
    unfolding phase(1) dest [symmetric] item
    using publish_resource_publishing [of store iget source_id catalog]
    by (simp split: option.splits)
  show "removed_ids (snd (snd (sync_resources store iget catalog0))) = []"
  proof -
    have "removed_ids lgb = []"
      using sync_publish_removed [of store iget destination_netcdf before catalog0] before by simp
    moreover have "removed_ids lg1 = []"
      using scan_source_removed [of store] scan by simp
    moreover have "removed_ids ?lg = []"
      by (rule publish_resource_removed)
    ultimately show ?thesis
      unfolding whole item by (simp add: scan_destination_removed split: option.splits)
  qed
qed

text \<open>An instance of each case: \<^verbatim>\<open>iget\<close> fails for the first resource and the second is still
  attempted; a rename fails for the first resource and the run ends.\<close>

theorem publication_error_is_isolated_witness:
  "fst (publish_resource store_ab iget_fail id_a (Dir fresh []))
      = Some (NetCDFPublicationError id_a 3 [] ''ERROR: connection refused'')
   \<and> id_a \<notin> fst ` set (fst (scan_destination (Dir fresh [])))
   \<and> fst (sync_source_item store_ab iget_fail (map fst []) (map snd []) (id_a, 5) (Dir fresh [])) = None
   \<and> (INFO, Publishing id_b) \<in> set (snd (snd (sync_publish store_ab iget_fail (map fst []) (map snd [])
          [(id_a, 5), (id_b, 6)] (Dir fresh []))))
   \<and> fst (publish_resource store_ab (iget_copy store_ab) id_a (Dir fresh [])) = Some IsADirectoryError
   \<and> fst (sync_resources store_ab (iget_copy store_ab) (Dir fresh [])) = Some IsADirectoryError
   \<and> publishing_ids (snd (snd (sync_resources store_ab (iget_copy store_ab) (Dir fresh [])))) = [id_a]
   \<and> removed_ids (snd (snd (sync_resources store_ab (iget_copy store_ab) (Dir fresh [])))) = []"
proof -
  have fails: "fst (publish_resource store_ab iget_fail id_a (Dir fresh []))
      = Some (NetCDFPublicationError id_a 3 [] ''ERROR: connection refused'')"
    by code_simp
  have dest: "fst (scan_destination (Dir fresh [])) = []"
    by code_simp
  have due: "id_a \<notin> fst ` set ([] :: (string \<times> int) list)
       \<or> (\<exists>dts. map_of ([] :: (string \<times> int) list) id_a = Some dts \<and> dts < 5)"
    by simp
  have later: "(INFO, Publishing id_b) \<in> set (snd (snd (sync_publish store_ab iget_fail (map fst []) (map snd [])
          [(id_a, 5), (id_b, 6)] (Dir fresh []))))"
    by code_simp
  have raises: "fst (publish_resource store_ab (iget_copy store_ab) id_a (Dir fresh [])) = Some IsADirectoryError"
    by code_simp
  have scan: "scan_source store_ab = (Inr ([] @ (id_a, 5) # [(id_b, 6)]), snd (scan_source store_ab))"
    by code_simp
  have before: "sync_publish store_ab (iget_copy store_ab) (map fst []) (map snd []) [] (Dir fresh [])
      = (None, Dir fresh [], [])"
    by simp
  note caught = publication_error_is_isolated [OF due, of store_ab iget_fail "Dir fresh []" "[(id_b, 6)]",
      THEN conjunct1, rule_format, OF fails]
  have other: "fst (publish_resource store_ab (iget_copy store_ab) id_a (Dir fresh [])) = Some IsADirectoryError
      \<and> (\<forall>i rc out err. IsADirectoryError \<noteq> NetCDFPublicationError i rc out err)"
    using raises by simp
  note abort = publication_error_is_isolated [OF due, of store_ab "iget_copy store_ab" "Dir fresh []" "[(id_b, 6)]",
      THEN conjunct2, THEN spec, THEN mp, OF other]
  note loop = abort [THEN conjunct2, THEN conjunct2, THEN conjunct2, rule_format, OF before]
  have start: "scan_source store_ab = (Inr ([] @ (id_a, 5) # [(id_b, 6)]), snd (scan_source store_ab))
      \<and> [] = fst (scan_destination (Dir fresh []))"
    using scan dest by simp
  note whole = loop [THEN conjunct2, rule_format, OF start]
  have run1: "fst (sync_resources store_ab (iget_copy store_ab) (Dir fresh [])) = Some IsADirectoryError"
    using whole [THEN conjunct1] by simp
  have run2: "publishing_ids (snd (snd (sync_resources store_ab (iget_copy store_ab) (Dir fresh [])))) = [id_a]"
    using whole [THEN conjunct2, THEN conjunct1] by simp
  have run3: "removed_ids (snd (snd (sync_resources store_ab (iget_copy store_ab) (Dir fresh [])))) = []"
    by (rule whole [THEN conjunct2, THEN conjunct2])
  show ?thesis
    using fails dest later raises run1 run2 run3 caught by simp
qed

subsection \<open>C3: which destination entries are removed\<close>

text \<open>
  Claim C3 says that exactly the destination entries absent from the source scan are
  removed. In the catalog below the first such entry is a plain file with a name of 32
  characters: \<^verbatim>\<open>rmtree\<close> raises \<^verbatim>\<open>NotADirectoryError\<close> on it, the run ends, and the
  directory after it, which is absent from the source as well, is still there.
\<close>

theorem absent_entry_survives_counterexample:
  "fst (scan_source store_b) = Inr [(id_b, 6)]
   \<and> id_d \<notin> fst ` set [(id_b, 6 :: int)]
   \<and> fst (sync_resources store_b (iget_copy store_b) catalog_cd) = Some NotADirectoryError
   \<and> id_d \<in> fst ` set (fst (scan_destination (fst (snd (sync_resources store_b (iget_copy store_b) catalog_cd)))))
   \<and> id_d \<notin> set (removed_ids (snd (snd (sync_resources store_b (iget_copy store_b) catalog_cd))))
   \<and> lookup (fst (snd (sync_resources store_b (iget_copy store_b) catalog_cd))) [id_d] = Some (Dir fresh [])"
  by code_simp

text \<open>
  Claim C3, amended. When the source scan succeeded and the publish loop ended normally with
  the catalog \<open>catalog1\<close>, the run scans \<open>catalog1\<close> again and removes entries of that scan
  whose identifier is not in the source inventory of the start of the run: the removed
  resources are an initial part of them, the catalog at the end is \<open>catalog1\<close> without the
  removed entries, and an entry whose identifier is in the source inventory is never
  removed. With distinct names in \<open>catalog1\<close>, as in a file system, the removal of a
  directory always succeeds: the entries removed are those before the first that is not a
  directory, and the run ends normally, with all of them removed, exactly when every one
  of them is a directory.
\<close>

theorem sync_removes_absent_from_source:
  assumes "scan_source store = (Inr source_netcdf, lg1)"
    and "sync_publish store iget (map fst (fst (scan_destination catalog)))
           (map snd (fst (scan_destination catalog))) source_netcdf catalog = (None, catalog1, lg3)"
  shows "prefix (removed_ids (snd (snd (sync_resources store iget catalog))))
           (filter (\<lambda>x. x \<notin> fst ` set source_netcdf) (map fst (fst (scan_destination catalog1))))
       \<and> (fst (sync_resources store iget catalog) = None \<longrightarrow>
            removed_ids (snd (snd (sync_resources store iget catalog)))
              = filter (\<lambda>x. x \<notin> fst ` set source_netcdf) (map fst (fst (scan_destination catalog1))))
       \<and> (\<forall>x. lookup (fst (snd (sync_resources store iget catalog))) [x]
              = (if x \<in> set (removed_ids (snd (snd (sync_resources store iget catalog)))) then None
                 else lookup catalog1 [x]))
       \<and> (\<forall>x \<in> fst ` set source_netcdf.
              x \<notin> set (removed_ids (snd (snd (sync_resources store iget catalog))))
              \<and> lookup (fst (snd (sync_resources store iget catalog))) [x] = lookup catalog1 [x])
       \<and> (distinct (map fst (entries catalog1)) \<longrightarrow>
            removed_ids (snd (snd (sync_resources store iget catalog)))
              = takeWhile (\<lambda>x. isdir catalog1 [x])
                  (filter (\<lambda>x. x \<notin> fst ` set source_netcdf) (map fst (fst (scan_destination catalog1))))
            \<and> (fst (sync_resources store iget catalog) = None \<longleftrightarrow>
                 (\<forall>x \<in> set (filter (\<lambda>x. x \<notin> fst ` set source_netcdf)
                               (map fst (fst (scan_destination catalog1)))). isdir catalog1 [x])))"
proof -
  obtain r catalog2 lg5 where rm:
    "sync_remove (map fst source_netcdf) (fst (scan_destination catalog1)) catalog1 = (r, catalog2, lg5)"
    by (rule prod_cases3)
  note eqs = sync_resources_removed_ids [OF assms rm]
  have ids: "prefix (removed_ids lg5)
        (filter (\<lambda>x. x \<notin> fst ` set source_netcdf) (map fst (fst (scan_destination catalog1))))
      \<and> (r = None \<longrightarrow> removed_ids lg5
          = filter (\<lambda>x. x \<notin> fst ` set source_netcdf) (map fst (fst (scan_destination catalog1))))"
    using sync_remove_log [OF rm] by simp
  have cat: "\<And>x. lookup catalog2 [x] = (if x \<in> set (removed_ids lg5) then None else lookup catalog1 [x])"
    using sync_remove_catalog [OF rm] by simp
  have kept: "\<And>x. x \<in> fst ` set source_netcdf \<Longrightarrow> x \<notin> set (removed_ids lg5)"
  proof
    fix x assume "x \<in> fst ` set source_netcdf" and "x \<in> set (removed_ids lg5)"
    with ids have "x \<in> set (filter (\<lambda>x. x \<notin> fst ` set source_netcdf)
        (map fst (fst (scan_destination catalog1))))"
      using set_mono_prefix by blast
    with \<open>x \<in> fst ` set source_netcdf\<close> show False by simp
  qed
  have exact: "removed_ids lg5
              = takeWhile (\<lambda>x. isdir catalog1 [x])
                  (filter (\<lambda>x. x \<notin> fst ` set source_netcdf) (map fst (fst (scan_destination catalog1))))
            \<and> (r = None \<longleftrightarrow>
                 (\<forall>x \<in> set (filter (\<lambda>x. x \<notin> fst ` set source_netcdf)
                               (map fst (fst (scan_destination catalog1)))). isdir catalog1 [x]))"
    if "distinct (map fst (entries catalog1))"
    using sync_remove_exact [OF scan_destination_distinct [OF that], of "map fst source_netcdf" catalog1]
    by (simp add: rm)
  show ?thesis
    unfolding eqs using ids cat kept exact by simp
qed

text \<open>An instance: one published resource is still in the source, one, a directory with a
  file in it, is not.\<close>

theorem sync_removes_absent_from_source_witness:
  "fst (sync_resources store_b (iget_copy store_b) catalog_d) = None
   \<and> removed_ids (snd (snd (sync_resources store_b (iget_copy store_b) catalog_d))) = [id_d]
   \<and> lookup catalog_d [id_d] = Some (Dir fresh [(''old.nc'', File fresh)])
   \<and> lookup (fst (snd (sync_resources store_b (iget_copy store_b) catalog_d))) [id_d] = None
   \<and> lookup (fst (snd (sync_resources store_b (iget_copy store_b) catalog_d))) [id_b]
       = Some (Dir (fresh\<lparr>st_mtime := 6\<rparr>) [])"
proof -
  have scan: "scan_source store_b = (Inr [(id_b, 6)], snd (scan_source store_b))"
    by code_simp
  have pub: "sync_publish store_b (iget_copy store_b) (map fst (fst (scan_destination catalog_d)))
           (map snd (fst (scan_destination catalog_d))) [(id_b, 6)] catalog_d = (None, catalog_d, [])"
    by code_simp
  have wf: "distinct (map fst (entries catalog_d))"
    by code_simp
  have rescan: "filter (\<lambda>x. x \<notin> fst ` set [(id_b, 6 :: int)]) (map fst (fst (scan_destination catalog_d))) = [id_d]"
    by code_simp
  have dir: "isdir catalog_d [id_d]"
    by code_simp
  have before: "lookup catalog_d [id_d] = Some (Dir fresh [(''old.nc'', File fresh)])"
      "lookup catalog_d [id_b] = Some (Dir (fresh\<lparr>st_mtime := 6\<rparr>) [])" "id_d \<noteq> id_b"
    by code_simp+
  show ?thesis
    using wf rescan dir before sync_removes_absent_from_source [OF scan pub]
    by simp
qed

subsection \<open>C4: the outcome of publishing one resource\<close>

text \<open>
  Claim C4 says that whenever \<^verbatim>\<open>iget\<close> exits with zero the times of the destination entry
  are set to the source timestamp. For the resource with a file \<^verbatim>\<open>a b\<close> next to a directory
  \<^verbatim>\<open>a__b\<close>, \<^verbatim>\<open>iget\<close> exits with zero, name normalization raises \<^verbatim>\<open>IsADirectoryError\<close>, and the
  entry keeps the times \<^verbatim>\<open>iget\<close> gave it instead of the resolved timestamp 5.
\<close>

theorem publish_skips_stamp_counterexample:
  "get_latest_resource_timestamp store_ab id_a = Inr 5
   \<and> fst (fst (iget_copy store_ab id_a (Dir fresh []))) = 0
   \<and> fst (publish_resource store_ab (iget_copy store_ab) id_a (Dir fresh [])) = Some IsADirectoryError
   \<and> map_option (\<lambda>n. (st_atime (node_stat n), st_mtime (node_stat n)))
        (lookup (fst (snd (publish_resource store_ab (iget_copy store_ab) id_a (Dir fresh [])))) [id_a])
       = Some (0, 0)"
  by code_simp

text \<open>
  Claim C4, amended. When the timestamp cannot be resolved, that error is raised and \<^verbatim>\<open>iget\<close>
  is not run. Otherwise \<open>NetCDFPublicationError\<close> is raised exactly when \<^verbatim>\<open>iget\<close> exits with a
  code other than zero; it carries that code, stdout and stderr, and the catalog is as
  \<^verbatim>\<open>iget\<close> left it: no permission, name or time has been touched. When \<^verbatim>\<open>iget\<close> exits with
  zero, \<open>rchmod\<close> runs and then \<open>replace_spaces_in_names\<close>; an error of either is raised as
  it is and ends the publication; when both complete, \<^verbatim>\<open>os.utime\<close> succeeds and the access
  and modification time of the destination entry are the resolved timestamp.
\<close>

theorem publish_resource_outcome:
  "(case get_latest_resource_timestamp store resource_id of
      Inl e \<Rightarrow>
        publish_resource store iget resource_id catalog
          = (Some e, catalog, [(INFO, Publishing resource_id)])
        \<and> (\<forall>i rc so se. e \<noteq> NetCDFPublicationError i rc so se)
    | Inr timestamp \<Rightarrow>
        (case iget resource_id catalog of
           ((returncode, out, err), catalog1) \<Rightarrow>
             ((\<exists>i rc so se. fst (publish_resource store iget resource_id catalog)
                   = Some (NetCDFPublicationError i rc so se)) \<longleftrightarrow> returncode \<noteq> 0)
           \<and> (returncode \<noteq> 0 \<longrightarrow>
                publish_resource store iget resource_id catalog
                  = (Some (NetCDFPublicationError resource_id returncode out err), catalog1,
                     [(INFO, Publishing resource_id),
                      (ERROR, PublishFailed resource_id returncode out err)]))
           \<and> (returncode = 0 \<longrightarrow>
                (case rchmod [resource_id] FILE_MODE catalog1 of
                   (Some e, catalog2) \<Rightarrow>
                     fst (publish_resource store iget resource_id catalog) = Some e
                     \<and> fst (snd (publish_resource store iget resource_id catalog)) = catalog2
                 | (None, catalog2) \<Rightarrow>
                     (case replace_spaces_in_names [resource_id] catalog2 of
                        (Some e, catalog3, lg) \<Rightarrow>
                          fst (publish_resource store iget resource_id catalog) = Some e
                          \<and> fst (snd (publish_resource store iget resource_id catalog)) = catalog3
                      | (None, catalog3, lg) \<Rightarrow>
                          fst (publish_resource store iget resource_id catalog) = None
                          \<and> os_utime [resource_id] (timestamp, timestamp) catalog3
                              = (None, fst (snd (publish_resource store iget resource_id catalog)))
                          \<and> (\<exists>n. lookup (fst (snd (publish_resource store iget resource_id catalog)))
                                     [resource_id] = Some n
                                \<and> st_atime (node_stat n) = timestamp
                                \<and> st_mtime (node_stat n) = timestamp))))))"
proof (cases "get_latest_resource_timestamp store resource_id")
  case (Inl e)
  then have "e = ValueError \<or> e = CollectionDoesNotExist"
    by (auto simp: get_latest_resource_timestamp_def collections_get_def py_max_def Let_def
        split: option.splits list.splits sum.splits)
  with Inl show ?thesis by (auto simp: publish_resource_def)
next
  case (Inr timestamp)
  obtain returncode out err catalog1 where ig: "iget resource_id catalog = ((returncode, out, err), catalog1)"
    by (cases "iget resource_id catalog") (metis prod_cases3)
  have iff: "(\<exists>i rc so se. fst (publish_resource store iget resource_id catalog)
                   = Some (NetCDFPublicationError i rc so se)) \<longleftrightarrow> returncode \<noteq> 0"
  proof
    assume "\<exists>i rc so se. fst (publish_resource store iget resource_id catalog)
                   = Some (NetCDFPublicationError i rc so se)"
    then obtain i rc so se where "fst (publish_resource store iget resource_id catalog)
                   = Some (NetCDFPublicationError i rc so se)" by blast
    from publish_resource_publication_error [OF this] ig show "returncode \<noteq> 0" by auto
  next
    assume "returncode \<noteq> 0"
    with Inr ig show "\<exists>i rc so se. fst (publish_resource store iget resource_id catalog)
                   = Some (NetCDFPublicationError i rc so se)"
      by (simp add: publish_resource_def)
  qed
  have failure: "returncode \<noteq> 0 \<Longrightarrow> publish_resource store iget resource_id catalog
                  = (Some (NetCDFPublicationError resource_id returncode out err), catalog1,
                     [(INFO, Publishing resource_id),
                      (ERROR, PublishFailed resource_id returncode out err)])"
    using Inr ig by (simp add: publish_resource_def)
  have success: "(case rchmod [resource_id] FILE_MODE catalog1 of
                   (Some e, catalog2) \<Rightarrow>
                     fst (publish_resource store iget resource_id catalog) = Some e
                     \<and> fst (snd (publish_resource store iget resource_id catalog)) = catalog2
                 | (None, catalog2) \<Rightarrow>
                     (case replace_spaces_in_names [resource_id] catalog2 of
                        (Some e, catalog3, lg) \<Rightarrow>
                          fst (publish_resource store iget resource_id catalog) = Some e
                          \<and> fst (snd (publish_resource store iget resource_id catalog)) = catalog3
                      | (None, catalog3, lg) \<Rightarrow>
                          fst (publish_resource store iget resource_id catalog) = None
                          \<and> os_utime [resource_id] (timestamp, timestamp) catalog3
                              = (None, fst (snd (publish_resource store iget resource_id catalog)))
                          \<and> (\<exists>n. lookup (fst (snd (publish_resource store iget resource_id catalog)))
                                     [resource_id] = Some n
                                \<and> st_atime (node_stat n) = timestamp
                                \<and> st_mtime (node_stat n) = timestamp)))"
    if zero: "returncode = 0"
  proof -
    obtain r2 c2 where ch: "rchmod [resource_id] FILE_MODE catalog1 = (r2, c2)"
      by (cases "rchmod [resource_id] FILE_MODE catalog1")
    show ?thesis
    proof (cases r2)
      case (Some e)
      with Inr ig zero ch show ?thesis by (simp add: publish_resource_def)
    next
      case None
      obtain r3 c3 lg3 where rs: "replace_spaces_in_names [resource_id] c2 = (r3, c3, lg3)"
        by (rule prod_cases3)
      show ?thesis
      proof (cases r3)
        case (Some e)
        with Inr ig zero ch None rs show ?thesis by (simp add: publish_resource_def)
      next
        case None3: None
        obtain c where "lookup c2 [resource_id] = Some c"
          using rchmod_found [of "[resource_id]" FILE_MODE catalog1 c2] ch None by auto
        then obtain c' where c': "lookup c3 [resource_id] = Some c'"
          using replace_spaces_in_names_keeps_path rs by blast
        from os_utime_found [OF c', of timestamp timestamp] obtain c4
          where ut: "os_utime [resource_id] (timestamp, timestamp) c3 = (None, c4)"
            and l4: "lookup c4 [resource_id] = Some (set_times (timestamp, timestamp) c')"
          by blast
        have res: "publish_resource store iget resource_id catalog
            = (None, c4, (INFO, Publishing resource_id) # lg3 @ [(INFO, Published resource_id timestamp)])"
          using Inr ig zero ch None rs None3 ut by (simp add: publish_resource_def)
        have "\<exists>n. lookup c4 [resource_id] = Some n
            \<and> st_atime (node_stat n) = timestamp \<and> st_mtime (node_stat n) = timestamp"
          using l4 set_times_stat [of timestamp timestamp c'] by blast
        then show ?thesis
          using ut by (simp add: ch None rs None3 res)
      qed
    qed
  qed
  show ?thesis
    unfolding Inr ig using iff failure success by simp
qed

text \<open>An instance of each of the two outcomes of \<^verbatim>\<open>iget\<close>.\<close>

theorem publish_resource_outcome_witness:
  "get_latest_resource_timestamp store_b id_b = Inr 6
   \<and> fst (fst (iget_copy store_b id_b (Dir fresh []))) = 0
   \<and> fst (publish_resource store_b (iget_copy store_b) id_b (Dir fresh [])) = None
   \<and> lookup (fst (snd (publish_resource store_b (iget_copy store_b) id_b (Dir fresh [])))) [id_b]
       = Some (Dir \<lparr>st_mode = FILE_MODE, st_atime = 6, st_mtime = 6\<rparr>
                 [(''y.nc'', File \<lparr>st_mode = FILE_MODE, st_atime = 0, st_mtime = 0\<rparr>)])
   \<and> fst (publish_resource store_b iget_fail id_b (Dir fresh []))
       = Some (NetCDFPublicationError id_b 3 [] ''ERROR: connection refused'')
   \<and> fst (snd (publish_resource store_b iget_fail id_b (Dir fresh []))) = Dir fresh []"
proof -
  have ts: "get_latest_resource_timestamp store_b id_b = Inr 6"
    by code_simp
  have ok: "iget_copy store_b id_b (Dir fresh []) = ((0, [], []), Dir fresh [(id_b, tree_of (hd store_b))])"
    by code_simp
  have bad: "iget_fail id_b (Dir fresh []) = ((3, [], ''ERROR: connection refused''), Dir fresh [])"
    by code_simp
  have tree: "lookup (fst (snd (publish_resource store_b (iget_copy store_b) id_b (Dir fresh [])))) [id_b]
       = Some (Dir \<lparr>st_mode = FILE_MODE, st_atime = 6, st_mtime = 6\<rparr>
                 [(''y.nc'', File \<lparr>st_mode = FILE_MODE, st_atime = 0, st_mtime = 0\<rparr>)])"
    by code_simp
  have fin: "fst (publish_resource store_b (iget_copy store_b) id_b (Dir fresh [])) = None"
    by code_simp
  show ?thesis
    using ts ok bad tree fin
      publish_resource_outcome [where store = store_b and iget = iget_fail and resource_id = id_b
        and catalog = "Dir fresh []"]
    by simp
qed

subsection \<open>C5: which collections are in the source inventory\<close>

text \<open>
  Claim C5. With the names of the collections below the proxy path distinct, the scan
  succeeds, and a collection is in the inventory exactly when its name is not excluded, its
  \<^verbatim>\<open>isPublic\<close> annotation has the value \<^verbatim>\<open>true\<close>, and it contains, at some depth, a file whose
  name ends in an extension that is \<^verbatim>\<open>.nc\<close> once put in lower case.
\<close>

theorem scan_source_membership:
  assumes "distinct (map coll_name store)" and "c \<in> set store"
  shows "\<exists>inventory. fst (scan_source store) = Inr inventory \<and>
           (coll_name c \<in> fst ` set inventory \<longleftrightarrow>
              coll_name c \<notin> set EXCLUDED
              \<and> metadata c IS_PUBLIC_KEY = Some IS_PUBLIC_VALUE
              \<and> (\<exists>obj \<in> set (contained_objects c). \<exists>stem ext.
                    obj_name obj = stem @ ext \<and> lower ext = NETCDF_EXTENSION))"
proof -
  define keep where "keep = (\<lambda>c. coll_name c \<notin> set EXCLUDED
      \<and> (metadata c ''isPublic'' \<noteq> None \<and> metadata c IS_PUBLIC_KEY = Some IS_PUBLIC_VALUE)
      \<and> netcdf_objects c \<noteq> [])"
  define cs where "cs = filter keep store"
  have src: "fst (scan_source store) = source_timestamps store (map coll_name cs)"
    by (simp add: scan_source_def cs_def keep_def Let_def conj_commute conj_left_commute)
  have nonempty: "\<forall>c \<in> set cs. contained_objects c \<noteq> []"
    by (auto simp: cs_def keep_def netcdf_objects_eq)
  have "set cs \<subseteq> set store" by (auto simp: cs_def)
  with assms(1) nonempty obtain inventory where
    inv: "source_timestamps store (map coll_name cs) = Inr inventory"
      "map fst inventory = map coll_name cs"
    using source_timestamps_ok by blast
  have "fst ` set inventory = coll_name ` set cs"
    using inv(2) by (metis set_map)
  moreover have "coll_name c \<in> coll_name ` set cs \<longleftrightarrow> c \<in> set cs"
  proof
    assume "coll_name c \<in> coll_name ` set cs"
    then obtain d where d: "d \<in> set cs" "coll_name d = coll_name c" by auto
    then have "d \<in> set store" by (simp add: cs_def)
    with assms d(2) have "d = c"
      by (meson distinct_map inj_onD)
    with d(1) show "c \<in> set cs" by simp
  qed auto
  moreover have "c \<in> set cs \<longleftrightarrow> keep c"
    using assms(2) by (simp add: cs_def)
  moreover have "netcdf_objects c \<noteq> [] \<longleftrightarrow>
      (\<exists>obj \<in> set (contained_objects c). \<exists>stem ext.
          obj_name obj = stem @ ext \<and> lower ext = NETCDF_EXTENSION)"
    by (auto simp: netcdf_objects_eq filter_empty_conv endswith_lower)
  ultimately show ?thesis
    using src inv(1) by (auto simp: keep_def IS_PUBLIC_KEY_def)
qed

text \<open>An instance: of four collections one is excluded by name, one has another annotation
  value, one has no NetCDF file, and one, with the extension in upper case, is kept.\<close>

theorem scan_source_membership_witness:
  "distinct (map coll_name store_mixed) \<and> coll_r1 \<in> set store_mixed
   \<and> fst (scan_source store_mixed) = Inr [(''r1'', 5)]
   \<and> coll_name coll_r1 \<notin> set EXCLUDED
   \<and> metadata coll_r1 IS_PUBLIC_KEY = Some IS_PUBLIC_VALUE"
proof -
  have d: "distinct (map coll_name store_mixed)"
    by code_simp
  have m: "coll_r1 \<in> set store_mixed"
    by (simp add: store_mixed_def)
  have s: "fst (scan_source store_mixed) = Inr [(''r1'', 5)]"
    by code_simp
  have n: "coll_name coll_r1 = ''r1''"
    by (simp add: coll_r1_def)
  show ?thesis
    using d m s n scan_source_membership [OF d m] by auto
qed

subsection \<open>C6: the latest timestamp\<close>

text \<open>
  Claim C6. For a collection with no file at any depth the resolver raises \<open>ValueError\<close>,
  so it returns no value at all; when the collection has a file it returns the largest
  modification time among its files.
\<close>

theorem latest_timestamp_fails_on_empty:
  assumes "collections_get store resource_id = Inr c"
  shows "(contained_objects c = [] \<longrightarrow>
            get_latest_resource_timestamp store resource_id = Inl ValueError)
       \<and> (contained_objects c \<noteq> [] \<longrightarrow>
            get_latest_resource_timestamp store resource_id
              = Inr (Max (modify_time ` set (contained_objects c))))
       \<and> ((\<exists>t. get_latest_resource_timestamp store resource_id = Inr t)
            \<longleftrightarrow> contained_objects c \<noteq> [])"
proof -
  have eq: "get_latest_resource_timestamp store resource_id
            = py_max (map modify_time (contained_objects c))"
    using assms by (rule get_latest_found)
  have empty: "contained_objects c = [] \<Longrightarrow> py_max (map modify_time (contained_objects c)) = Inl ValueError"
    by (simp add: py_max_def)
  have full: "contained_objects c \<noteq> [] \<Longrightarrow> py_max (map modify_time (contained_objects c))
                = Inr (Max (modify_time ` set (contained_objects c)))"
    using py_max_Max [of "map modify_time (contained_objects c)"] by simp
  show ?thesis
    unfolding eq using empty full by (cases "contained_objects c = []") auto
qed

text \<open>An instance of each case.\<close>

theorem latest_timestamp_fails_on_empty_witness:
  "get_latest_resource_timestamp [Collection ''r'' Map.empty [] [Collection ''sub'' Map.empty [] []]] ''r''
     = Inl ValueError
   \<and> get_latest_resource_timestamp
       [Collection ''q'' Map.empty [\<lparr>obj_name = ''a.nc'', modify_time = 3\<rparr>]
          [Collection ''sub'' Map.empty [\<lparr>obj_name = ''b.txt'', modify_time = 7\<rparr>] []]] ''q''
     = Inr 7"
proof -
  let ?r = "Collection ''r'' Map.empty [] [Collection ''sub'' Map.empty [] []]"
  let ?q = "Collection ''q'' Map.empty [\<lparr>obj_name = ''a.nc'', modify_time = 3\<rparr>]
              [Collection ''sub'' Map.empty [\<lparr>obj_name = ''b.txt'', modify_time = 7\<rparr>] []]"
  have r: "collections_get [?r] ''r'' = Inr ?r"
    by (simp add: collections_get_def)
  have q: "collections_get [?q] ''q'' = Inr ?q"
    by (simp add: collections_get_def)
  show ?thesis
    using latest_timestamp_fails_on_empty [OF r] latest_timestamp_fails_on_empty [OF q]
    by simp
qed

subsection \<open>C7: normalizing names twice\<close>

text \<open>
  Claim C7: after one run of the normalizer no name below the path has a space, and a second
  run changes nothing. The docstring of \<^verbatim>\<open>replace_spaces_in_names\<close> promises the same: spaces
  are replaced in the names of all children, by two underscores because one had led to name
  collisions. The function renames without looking at the new name. Evaluated on a
  directory with a file \<^verbatim>\<open>a b\<close> next to a directory \<^verbatim>\<open>a__b\<close>, it raises \<^verbatim>\<open>IsADirectoryError\<close> and
  the name \<^verbatim>\<open>a b\<close> is still there; next to a file \<^verbatim>\<open>a__b\<close> it completes, and that
  file is gone, replaced by the renamed one; on a name of 128 spaces the new name is longer
  than \<^verbatim>\<open>NAME_MAX\<close>, it raises and the name stays.
\<close>

theorem normalizer_raises_on_collision:
  "replace_spaces_in_names [] clash = (Some IsADirectoryError, clash, [])
   \<and> ''a b'' \<in> set (names_under (fst (snd (replace_spaces_in_names [] clash))))
   \<and> CHR '' '' \<in> set ''a b''
   \<and> replace_spaces_in_names [] (fst (snd (replace_spaces_in_names [] clash)))
       = (Some IsADirectoryError, clash, [])
   \<and> replace_spaces_in_names [] (Dir fresh [(''a b'', File (fresh\<lparr>st_mtime := 1\<rparr>)),
                                           (''a__b'', File (fresh\<lparr>st_mtime := 2\<rparr>))])
       = (None, Dir fresh [(''a__b'', File (fresh\<lparr>st_mtime := 1\<rparr>))], [(WARNING, ReplacedNames 1 [])])
   \<and> replace_spaces_in_names [] (Dir fresh [(replicate 128 (CHR '' ''), File fresh)])
       = (Some FileNameTooLong, Dir fresh [(replicate 128 (CHR '' ''), File fresh)], [])"
  by code_simp

subsection \<open>C8: a directory and the file in it\<close>

text \<open>
  Claim C8, for every well-formed directory at the path given to the normalizer. The
  reversed walk is deepest first: no directory is handled before a directory below it.
  When the directory has an entry \<^verbatim>\<open>a b\<close> that is a directory with a file \<^verbatim>\<open>c d.nc\<close> in it
  and the normalizer returns, that file is at \<^verbatim>\<open>a__b/c__d.nc\<close> below the path and there is
  no entry \<^verbatim>\<open>a b\<close> any more. The normalizer does return when no two names of a directory
  are replaced by the same name and every new name is within \<^verbatim>\<open>NAME_MAX\<close> (no rename finds
  its directory moved away); so in every such tree with \<^verbatim>\<open>a b/c d.nc\<close> the file is at
  \<^verbatim>\<open>a__b/c__d.nc\<close> afterwards.
\<close>

theorem renames_deepest_first:
  assumes "lookup t p = Some (Dir s es)" and "wf_node (Dir s es)"
  shows "sorted_wrt (\<lambda>a b. \<not> strict_prefix (fst a) (fst b)) (rev (os_walk p t))
       \<and> (\<forall>s1 es1 s2 t' lg.
            map_of es ''a b'' = Some (Dir s1 es1) \<and> map_of es1 ''c d.nc'' = Some (File s2)
            \<and> replace_spaces_in_names p t = (None, t', lg) \<longrightarrow>
              lookup t' (p @ [''a__b'', ''c__d.nc'']) = Some (File s2)
            \<and> lookup t' (p @ [''a b'']) = None)
       \<and> (collision_free (Dir s es) \<and> names_fit (Dir s es) \<longrightarrow>
            fst (replace_spaces_in_names p t) = None
            \<and> (\<forall>s1 es1 s2.
                  map_of es ''a b'' = Some (Dir s1 es1) \<and> map_of es1 ''c d.nc'' = Some (File s2) \<longrightarrow>
                    lookup (fst (snd (replace_spaces_in_names p t))) (p @ [''a__b'', ''c__d.nc''])
                      = Some (File s2)
                  \<and> lookup (fst (snd (replace_spaces_in_names p t))) (p @ [''a b'']) = None))"
proof -
  have order: "sorted_wrt (\<lambda>a b. \<not> strict_prefix (fst a) (fst b)) (rev (os_walk p t))"
    using assms by (rule os_walk_deepest_first)
  have lands: "lookup t' (p @ [''a__b'', ''c__d.nc'']) = Some (File s2) \<and> lookup t' (p @ [''a b'']) = None"
    if outer: "map_of es ''a b'' = Some (Dir s1 es1)"
      and inner: "map_of es1 ''c d.nc'' = Some (File s2)"
      and run: "replace_spaces_in_names p t = (None, t', lg)"
    for s1 es1 s2 t' lg
  proof -
    obtain r c' k' where rw: "rename_walk (rev (walk_from [] (Dir s es))) (Dir s es, 0) = (r, c', k')"
      by (rule prod_cases3)
    from run have r: "r = None" and t': "t' = plug t p c'"
      unfolding replace_spaces_in_names_found [OF assms(1)] rw by (auto split: option.splits)
    have at_p: "lookup t' p = Some c'"
      unfolding t' using assms(1) by (rule lookup_plug)
    have ab: "replace_spaces ''a b'' = ''a__b''" and cd: "replace_spaces ''c d.nc'' = ''c__d.nc''"
      by (simp_all add: replace_spaces_def)
    have "(''a b'', Dir s1 es1) \<in> set es" using outer by (rule map_of_SomeD)
    with assms(2) have wf1: "wf_node (Dir s1 es1)" by fastforce
    have "\<forall>g \<in> fst ` set es. replace_spaces g = replace_spaces ''a b'' \<longrightarrow> g = ''a b'' \<or> g = replace_spaces ''a b''"
      unfolding ab using preimage_a_b by blast
    from directory_lands [OF assms(2) outer _ _ this rw [unfolded r]] obtain es' c1 j j'
      where c': "c' = Dir s es'" and dir: "map_of es' ''a__b'' = Some c1"
        and sub: "rename_walk (rev (walk_from [] (Dir s1 es1))) (Dir s1 es1, j) = (None, c1, j')"
      unfolding ab by auto
    have "\<forall>g \<in> fst ` set es1. replace_spaces g = replace_spaces ''c d.nc'' \<longrightarrow> g = ''c d.nc'' \<or> g = replace_spaces ''c d.nc''"
      unfolding cd using preimage_c_d_nc by blast
    from file_lands [OF wf1 inner _ this sub] obtain es1'
      where c1: "c1 = Dir s1 es1'" and leaf: "map_of es1' ''c__d.nc'' = Some (File s2)"
      unfolding cd by auto
    have there: "lookup t' (p @ [''a__b'', ''c__d.nc'']) = Some (File s2)"
      unfolding lookup_append at_p using c' dir c1 leaf by simp
    have "no_spaces c'"
      using assms(2) rw [unfolded r] by (rule rename_walk_no_spaces)
    then have "\<forall>e \<in> set es'. CHR '' '' \<notin> set (fst e)"
      unfolding c' by (simp add: no_spaces_Dir)
    then have "map_of es' ''a b'' = None"
      by (cases "map_of es' ''a b''") (auto dest!: map_of_SomeD)
    then have "lookup t' (p @ [''a b'']) = None"
      unfolding lookup_append at_p using c' by simp
    with there show ?thesis by simp
  qed
  have returns: "fst (replace_spaces_in_names p t) = None"
    if "collision_free (Dir s es) \<and> names_fit (Dir s es)"
    using assms(1) that by (simp add: replace_spaces_in_names_ok)
  have both: "lookup (fst (snd (replace_spaces_in_names p t))) (p @ [''a__b'', ''c__d.nc'']) = Some (File s2)
        \<and> lookup (fst (snd (replace_spaces_in_names p t))) (p @ [''a b'']) = None"
    if ok: "collision_free (Dir s es) \<and> names_fit (Dir s es)"
      and entries: "map_of es ''a b'' = Some (Dir s1 es1) \<and> map_of es1 ''c d.nc'' = Some (File s2)"
    for s1 es1 s2
  proof -
    have "replace_spaces_in_names p t
        = (None, fst (snd (replace_spaces_in_names p t)), snd (snd (replace_spaces_in_names p t)))"
      using returns [OF ok] by (metis prod.collapse)
    with entries show ?thesis using lands by blast
  qed
  show ?thesis
    using order lands returns both by blast
qed

text \<open>An instance with three levels below the path: the walk, and where the files end up.\<close>

theorem renames_deepest_first_witness:
  "rev (os_walk [id_a] deep)
     = [([id_a, ''a b'', ''e f''], [], [''g h.nc'']), ([id_a, ''a b''], [''e f''], [''c d.nc'']),
        ([id_a], [''a b''], [''readme.txt''])]
   \<and> fst (replace_spaces_in_names [id_a] deep) = None
   \<and> lookup (fst (snd (replace_spaces_in_names [id_a] deep))) ([id_a] @ [''a__b'', ''c__d.nc''])
       = Some (File fresh)
   \<and> lookup (fst (snd (replace_spaces_in_names [id_a] deep))) ([id_a] @ [''a b'']) = None
   \<and> lookup (fst (snd (replace_spaces_in_names [id_a] deep))) [id_a, ''a__b'', ''e__f'', ''g__h.nc'']
       = Some (File fresh)"
proof -
  let ?es = "[(''a b'', Dir fresh [(''c d.nc'', File fresh), (''e f'', Dir fresh [(''g h.nc'', File fresh)])]),
         (''readme.txt'', File fresh)]"
  let ?es1 = "[(''c d.nc'', File fresh), (''e f'', Dir fresh [(''g h.nc'', File fresh)])]"
  have l: "lookup deep [id_a] = Some (Dir fresh ?es)"
    by code_simp
  have w: "wf_node (Dir fresh ?es)"
    by code_simp
  have ok: "collision_free (Dir fresh ?es) \<and> names_fit (Dir fresh ?es)"
    by code_simp
  have order: "rev (os_walk [id_a] deep)
     = [([id_a, ''a b'', ''e f''], [], [''g h.nc'']), ([id_a, ''a b''], [''e f''], [''c d.nc'']),
        ([id_a], [''a b''], [''readme.txt''])]"
    by code_simp
  have deeper: "lookup (fst (snd (replace_spaces_in_names [id_a] deep))) [id_a, ''a__b'', ''e__f'', ''g__h.nc'']
       = Some (File fresh)"
    by code_simp
  have entries: "map_of ?es ''a b'' = Some (Dir fresh ?es1) \<and> map_of ?es1 ''c d.nc'' = Some (File fresh)"
    by simp
  note free = renames_deepest_first [OF l w, THEN conjunct2, THEN conjunct2, THEN mp, OF ok]
  have completes: "fst (replace_spaces_in_names [id_a] deep) = None"
    by (rule free [THEN conjunct1])
  have "lookup (fst (snd (replace_spaces_in_names [id_a] deep))) ([id_a] @ [''a__b'', ''c__d.nc''])
       = Some (File fresh)
     \<and> lookup (fst (snd (replace_spaces_in_names [id_a] deep))) ([id_a] @ [''a b'']) = None"
    by (rule free [THEN conjunct2, rule_format, OF entries])
  with order completes deeper show ?thesis by simp
qed

subsection \<open>C9: failures of a removal\<close>

text \<open>
  Claim C9. When, in the removal loop, \<^verbatim>\<open>remove_resource\<close> raises for an entry that is not in
  the source, the run ends with that error: the catalog is as it was at that moment, nothing
  after that entry is removed. A \<open>NetCDFPublicationError\<close> in the publish loop, in contrast,
  never leaves its round.
\<close>

theorem removal_failure_aborts:
  assumes "scan_source store = (Inr source_netcdf, lg1)"
    and "sync_publish store iget (map fst (fst (scan_destination catalog)))
           (map snd (fst (scan_destination catalog))) source_netcdf catalog = (None, catalog1, lg3)"
    and "fst (scan_destination catalog1) = before @ (destination_id, destination_timestamp) # after"
    and "sync_remove (map fst source_netcdf) before catalog1 = (None, c, lgb)"
    and "destination_id \<notin> fst ` set source_netcdf"
    and "fst (remove_resource c destination_id) = Some e"
  shows "fst (sync_resources store iget catalog) = Some e
       \<and> fst (snd (sync_resources store iget catalog)) = c
       \<and> removed_ids (snd (snd (sync_resources store iget catalog))) = removed_ids lgb
       \<and> (\<forall>sid sts cat i rc out err.
             fst (publish_resource store iget sid cat) = Some (NetCDFPublicationError i rc out err) \<longrightarrow>
             fst (sync_source_item store iget (map fst (fst (scan_destination catalog)))
                    (map snd (fst (scan_destination catalog))) (sid, sts) cat) = None)"
proof -
  obtain r1 c1 lgr where rm1: "remove_resource c destination_id = (r1, c1, lgr)"
    by (rule prod_cases3)
  with assms(6) have r1: "r1 = Some e" by simp
  from remove_resource_cases [OF rm1] r1 have same: "c1 = c" "lgr = []" by auto
  have item: "sync_destination_item (map fst source_netcdf) (destination_id, destination_timestamp) c
      = (Some e, c, [(INFO, NoLongerInSource destination_id)])"
    using assms(5) rm1 r1 same by (simp add: sync_destination_item_def)
  have rm: "sync_remove (map fst source_netcdf) (fst (scan_destination catalog1)) catalog1
      = (Some e, c, lgb @ [(INFO, NoLongerInSource destination_id)])"
    unfolding assms(3) sync_remove_append assms(4) using item by simp
  have iso: "\<forall>sid sts cat i rc out err.
      fst (publish_resource store iget sid cat) = Some (NetCDFPublicationError i rc out err) \<longrightarrow>
      fst (sync_source_item store iget (map fst (fst (scan_destination catalog)))
             (map snd (fst (scan_destination catalog))) (sid, sts) cat) = None"
    by (auto simp: sync_source_item_cases split: prod.splits option.splits error.splits)
  show ?thesis
    using sync_resources_removed_ids [OF assms(1,2) rm] iso by simp
qed

text \<open>An instance: the first entry to remove is a plain file, on which \<^verbatim>\<open>rmtree\<close> raises; the
  directory after it stays.\<close>

theorem removal_failure_aborts_witness:
  "fst (sync_resources store_b (iget_copy store_b) catalog_cd) = Some NotADirectoryError
   \<and> removed_ids (snd (snd (sync_resources store_b (iget_copy store_b) catalog_cd))) = []
   \<and> lookup (fst (snd (sync_resources store_b (iget_copy store_b) catalog_cd))) [id_d] = Some (Dir fresh [])"
proof -
  let ?c1 = "fst (snd (sync_publish store_b (iget_copy store_b) (map fst (fst (scan_destination catalog_cd)))
           (map snd (fst (scan_destination catalog_cd))) [(id_b, 6)] catalog_cd))"
  let ?lg3 = "snd (snd (sync_publish store_b (iget_copy store_b) (map fst (fst (scan_destination catalog_cd)))
           (map snd (fst (scan_destination catalog_cd))) [(id_b, 6)] catalog_cd))"
  have scan: "scan_source store_b = (Inr [(id_b, 6)], snd (scan_source store_b))"
    by code_simp
  have "fst (sync_publish store_b (iget_copy store_b) (map fst (fst (scan_destination catalog_cd)))
           (map snd (fst (scan_destination catalog_cd))) [(id_b, 6)] catalog_cd) = None"
    by code_simp
  then have pub: "sync_publish store_b (iget_copy store_b) (map fst (fst (scan_destination catalog_cd)))
           (map snd (fst (scan_destination catalog_cd))) [(id_b, 6)] catalog_cd = (None, ?c1, ?lg3)"
    by (metis prod.collapse)
  have rescan: "fst (scan_destination ?c1) = [] @ (id_c, 0) # [(id_d, 0), (id_b, 6)]"
    by code_simp
  have before: "sync_remove (map fst [(id_b, 6 :: int)]) [] ?c1 = (None, ?c1, [])"
    by simp
  have absent: "id_c \<notin> fst ` set [(id_b, 6 :: int)]"
    by code_simp
  have fails: "fst (remove_resource ?c1 id_c) = Some NotADirectoryError"
    by code_simp
  have still: "lookup ?c1 [id_d] = Some (Dir fresh [])"
    by code_simp
  show ?thesis
    using removal_failure_aborts [OF scan pub rescan before absent fails] still
    by simp
qed

subsection \<open>C10: entries that do not match the identifier pattern\<close>

text \<open>
  Claim C10. An entry of the catalog whose name does not match \<^verbatim>\<open>RESOURCE_ID_GLOB\<close> is not in
  the destination inventory; so no timestamp is ever compared for it (a source item of that
  name counts as missing), the removal loop does not remove it and leaves it as it is, and
  every name the removal loop removes has 32 characters and no leading dot.
\<close>

theorem unmatched_entries_invisible:
  assumes "\<not> glob_match RESOURCE_ID_GLOB x"
  shows "x \<notin> fst ` set (fst (scan_destination catalog))
       \<and> map_of (fst (scan_destination catalog)) x = None
       \<and> x \<notin> set (removed_ids (snd (snd (sync_remove source_ids (fst (scan_destination catalog)) catalog))))
       \<and> lookup (fst (snd (sync_remove source_ids (fst (scan_destination catalog)) catalog))) [x]
           = lookup catalog [x]
       \<and> (\<forall>y \<in> set (removed_ids (snd (snd (sync_remove source_ids (fst (scan_destination catalog)) catalog)))).
             length y = 32 \<and> take 1 y \<noteq> ''.'')"
proof -
  obtain r c lg where rm: "sync_remove source_ids (fst (scan_destination catalog)) catalog = (r, c, lg)"
    by (rule prod_cases3)
  have notin: "x \<notin> fst ` set (fst (scan_destination catalog))"
    using assms scan_destination_ids by blast
  then have due: "map_of (fst (scan_destination catalog)) x = None"
    by (simp add: map_of_eq_None_iff)
  have sub: "set (removed_ids lg) \<subseteq> fst ` set (fst (scan_destination catalog))"
    using sync_remove_log [OF rm] set_mono_prefix by fastforce
  then have nr: "x \<notin> set (removed_ids lg)"
    using notin by blast
  have shape: "\<forall>y \<in> set (removed_ids lg). length y = 32 \<and> take 1 y \<noteq> ''.''"
    using sub scan_destination_ids glob_match_resource_id by blast
  show ?thesis
    using notin due nr shape sync_remove_catalog [OF rm, of x] by (simp add: rm)
qed

text \<open>An instance: the directory \<^verbatim>\<open>junk\<close>.\<close>

theorem unmatched_entries_invisible_witness:
  "\<not> glob_match RESOURCE_ID_GLOB ''junk''
   \<and> lookup catalog_cd [''junk''] = Some (Dir fresh [])
   \<and> lookup (fst (snd (sync_remove [] (fst (scan_destination catalog_cd)) catalog_cd))) [''junk'']
       = Some (Dir fresh [])"
proof -
  have h: "\<not> glob_match RESOURCE_ID_GLOB ''junk''"
    by code_simp
  have l: "lookup catalog_cd [''junk''] = Some (Dir fresh [])"
    by code_simp
  show ?thesis
    using h l unmatched_entries_invisible [OF h, of catalog_cd "[]"] by simp
qed

end
